theory Spec2Isabelle
  imports Main "HOL-Library.Word" "HOL-Library.Multiset"
begin

section \<open>Package ratelimiter: the admission semaphore\<close>

text \<open>
  The limiter is two channels and a \<^verbatim>\<open>sync.Once\<close>:
  \<^verbatim>\<open>window chan struct{}\<close> (buffered, capacity \<open>limit\<close>) and \<^verbatim>\<open>done chan struct{}\<close>
  (only ever closed). A buffered channel of empty structs is its element count, so
  \<open>window\<close> is a number. \<open>acquired\<close> and \<open>released\<close> are history counters: the number of
  \<^verbatim>\<open>Acquire\<close> calls that returned true and of \<^verbatim>\<open>Release\<close> calls that returned. No
  operation reads them.

  A call that blocks has the value \<open>None\<close>. The model covers a limiter of capacity at
  least one, the only one package listener builds (a capacity of zero makes
  \<^verbatim>\<open>window\<close> an unbuffered channel, whose send needs a receiver waiting at the same
  moment).
\<close>

record rateLimiter =
  window :: nat
  limit :: nat
  done_closed :: bool
  once :: bool
  acquired :: nat
  released :: nat

definition ratelimiter_New :: "64 word \<Rightarrow> rateLimiter" where
  "ratelimiter_New lim =
     \<lparr>window = 0, limit = unat lim, done_closed = False, once = False,
      acquired = 0, released = 0\<rparr>"

text \<open>\<^verbatim>\<open>Done\<close>: \<^verbatim>\<open>rl.once.Do(func() { close(rl.done) })\<close>.\<close>

definition Done :: "rateLimiter \<Rightarrow> rateLimiter" where
  "Done rl = (if once rl then rl else rl\<lparr>once := True, done_closed := True\<rparr>)"

text \<open>
  \<^verbatim>\<open>Acquire\<close> is one \<^verbatim>\<open>select\<close> over two communications. Go picks, among the
  communications that can proceed, one by a uniform pseudo-random choice, and blocks when
  none can. The pick is a parameter: \<open>CaseDone\<close> is \<^verbatim>\<open>case <-rl.done\<close> (it can proceed
  once \<^verbatim>\<open>done\<close> is closed), \<open>CaseSend\<close> is \<^verbatim>\<open>case rl.window <- struct{}{}\<close> (it can
  proceed while the buffer has room). \<open>None\<close>: the picked case cannot proceed.
\<close>

datatype select_case = CaseDone | CaseSend

fun Acquire :: "select_case \<Rightarrow> rateLimiter \<Rightarrow> (bool \<times> rateLimiter) option" where
  "Acquire CaseDone rl = (if done_closed rl then Some (False, rl) else None)"
| "Acquire CaseSend rl =
     (if window rl < limit rl
      then Some (True, rl\<lparr>window := window rl + 1, acquired := acquired rl + 1\<rparr>)
      else None)"

text \<open>The call blocks when neither case can proceed.\<close>

definition Acquire_blocks :: "rateLimiter \<Rightarrow> bool" where
  "Acquire_blocks rl = (Acquire CaseDone rl = None \<and> Acquire CaseSend rl = None)"

text \<open>\<^verbatim>\<open>Release\<close>: \<^verbatim>\<open><-rl.window\<close>, a receive that blocks on an empty buffer.\<close>

definition Release :: "rateLimiter \<Rightarrow> rateLimiter option" where
  "Release rl =
     (if 0 < window rl
      then Some (rl\<lparr>window := window rl - 1, released := released rl + 1\<rparr>)
      else None)"

section \<open>Package listener: the admission-controlled acceptor\<close>

text \<open>
  \<^verbatim>\<open>connection\<close> wraps the accepted \<^verbatim>\<open>net.Conn\<close> (here its identity, a number) with
  a \<^verbatim>\<open>sync.Once\<close>; its \<^verbatim>\<open>release\<close> field is always the method value
  \<^verbatim>\<open>rl.RateLimiter.Release\<close> of the listener that made it, so closing takes the
  listener's limiter as the state it acts on.
\<close>

record connection =
  Conn :: nat
  conn_once :: bool

type_synonym neterr = string

text \<open>
  \<^verbatim>\<open>listener.Accept\<close>. What the wrapped \<^verbatim>\<open>net.Listener\<close> answers is the
  environment's: \<open>Inl err\<close> or \<open>Inr conn\<close>.
\<close>

definition Accept ::
  "select_case \<Rightarrow> neterr + nat \<Rightarrow> rateLimiter \<Rightarrow> ((neterr + connection) \<times> rateLimiter) option"
where
  "Accept pick accepted rl =
     (case Acquire pick rl of
        None \<Rightarrow> None
      | Some (acquiredLock, rl1) \<Rightarrow>
          (case accepted of
             Inl err \<Rightarrow>
               (if acquiredLock
                then (case Release rl1 of
                        None \<Rightarrow> None
                      | Some rl2 \<Rightarrow> Some (Inl err, rl2))
                else Some (Inl err, rl1))
           | Inr conn \<Rightarrow> Some (Inr \<lparr>Conn = conn, conn_once = False\<rparr>, rl1)))"

text \<open>
  \<^verbatim>\<open>connection.Close\<close>: \<^verbatim>\<open>err = cn.Conn.Close(); cn.once.Do(cn.release)\<close>. The
  wrapped connection's answer \<open>cerr\<close> is the environment's. \<^verbatim>\<open>Once.Do\<close> calls its
  argument on the first call only and marks the once when the argument has returned.
\<close>

definition conn_Close ::
  "neterr option \<Rightarrow> connection \<Rightarrow> rateLimiter \<Rightarrow> (neterr option \<times> connection \<times> rateLimiter) option"
where
  "conn_Close cerr cn rl =
     (if conn_once cn then Some (cerr, cn, rl)
      else (case Release rl of
              None \<Rightarrow> None
            | Some rl1 \<Rightarrow> Some (cerr, cn\<lparr>conn_once := True\<rparr>, rl1)))"


text \<open>
  Calls on one limiter, taken one at a time in any order. A call of \<^verbatim>\<open>Acquire\<close> that
  finds no case of its \<^verbatim>\<open>select\<close> ready waits there; \<open>parked\<close> counts the waiting
  calls. Closing \<^verbatim>\<open>done\<close> wakes every waiting call on the case \<^verbatim>\<open><-rl.done\<close>, and
  the call returns false. A receive from the window while calls wait (the window is full
  then) lets the first of them complete its send: that call returns true and the window
  stays full. \<open>woken_false\<close> and \<open>woken_true\<close> are history counters, the waiting calls
  that have returned false and true. A run is cut (\<open>None\<close>) at a \<^verbatim>\<open>Release\<close> that
  blocks and at a pick the \<^verbatim>\<open>select\<close> cannot take.
\<close>

record gate =
  limiter :: rateLimiter
  parked :: nat
  woken_false :: nat
  woken_true :: nat

definition gate_New :: "64 word \<Rightarrow> gate" where
  "gate_New lim = \<lparr>limiter = ratelimiter_New lim, parked = 0, woken_false = 0, woken_true = 0\<rparr>"

datatype gate_op = OpDone | OpAcquire select_case | OpRelease

fun gate_step :: "gate_op \<Rightarrow> gate \<Rightarrow> gate option" where
  "gate_step OpDone g =
     (if once (limiter g) then Some g
      else Some (g\<lparr>limiter := Done (limiter g), woken_false := woken_false g + parked g,
                   parked := 0\<rparr>))"
| "gate_step (OpAcquire pick) g =
     (if Acquire_blocks (limiter g) then Some (g\<lparr>parked := parked g + 1\<rparr>)
      else (case Acquire pick (limiter g) of
              None \<Rightarrow> None
            | Some (ok, rl1) \<Rightarrow> Some (g\<lparr>limiter := rl1\<rparr>)))"
| "gate_step OpRelease g =
     (case Release (limiter g) of
        None \<Rightarrow> None
      | Some rl1 \<Rightarrow>
          if 0 < parked g
          then Some (g\<lparr>limiter := rl1\<lparr>window := window rl1 + 1, acquired := acquired rl1 + 1\<rparr>,
                       parked := parked g - 1, woken_true := woken_true g + 1\<rparr>)
          else Some (g\<lparr>limiter := rl1\<rparr>))"

fun gate_run :: "gate_op list \<Rightarrow> gate \<Rightarrow> gate option" where
  "gate_run [] g = Some g"
| "gate_run (op # ops) g =
     (case gate_step op g of None \<Rightarrow> None | Some g1 \<Rightarrow> gate_run ops g1)"

definition gate_ok :: "gate \<Rightarrow> bool" where
  "gate_ok g =
     (once (limiter g) = done_closed (limiter g) \<and> window (limiter g) \<le> limit (limiter g) \<and>
      (0 < parked g \<longrightarrow> window (limiter g) = limit (limiter g) \<and> \<not> done_closed (limiter g)))"

section \<open>Package closer: the shutdown coordinator\<close>

text \<open>
  A hook is a \<^verbatim>\<open>func() error\<close>. The model takes a hook to be an action that returns, and
  whose only effect on the coordinator is the error it returns: \<open>hook_err\<close> is that
  error's text (\<open>None\<close> for nil), \<open>hook_name\<close> tells hooks apart.
\<close>

record hook =
  hook_name :: string
  hook_err :: "string option"

text \<open>The state of a \<^verbatim>\<open>sync.Once\<close>: not called, its function running, done.\<close>

datatype once_state = Fresh | Running | Finished

text \<open>
  \<open>funcs\<close>, \<open>c_once\<close> and \<open>c_done\<close> are the fields of \<^verbatim>\<open>closer\<close> (\<open>c_done\<close>: the
  channel is closed). \<open>run_funcs\<close>, \<open>errs\<close> and \<open>i\<close> are the locals of the function given
  to \<^verbatim>\<open>once.Do\<close>: the slice taken from \<^verbatim>\<open>c.funcs\<close>, the content of the buffered
  channel \<^verbatim>\<open>errs\<close> (capacity \<open>length run_funcs\<close>), the loop counter. \<open>ran\<close> has one
  flag per goroutine the loop started: whether it has run \<^verbatim>\<open>errs <- f()\<close>.
  \<open>log_lines\<close> is what was written to the log. \<open>executed\<close> is a history
  variable, the hooks in the order they were called; no step reads it.
\<close>

record closer =
  funcs :: "hook list"
  c_once :: once_state
  c_done :: bool
  run_funcs :: "hook list"
  ran :: "bool list"
  errs :: "string option list"
  i :: nat
  log_lines :: "string list"
  executed :: "hook list"

definition closer_New :: closer where
  "closer_New =
     \<lparr>funcs = [], c_once = Fresh, c_done = False, run_funcs = [], ran = [], errs = [],
      i = 0, log_lines = [], executed = []\<rparr>"

text \<open>
  The steps of the coordinator and of the goroutines it starts, taken one at a time in any
  order (an interleaving); \<open>None\<close>: the step cannot be taken in this state.
  \<^item> \<open>Add fs\<close>: a call \<^verbatim>\<open>c.Add(fs...)\<close>, atomic under the mutex.
  \<^item> \<open>CloseCall\<close>: a call \<^verbatim>\<open>c.Close()\<close>. The first one enters the function of
    \<^verbatim>\<open>once.Do\<close>: it takes \<^verbatim>\<open>c.funcs\<close> under the mutex, makes \<^verbatim>\<open>errs\<close> and
    starts one goroutine per hook. Any other one finds the once taken and changes
    nothing.
  \<^item> \<open>RunHook j\<close>: the \<open>j\<close>-th goroutine runs \<^verbatim>\<open>errs <- f()\<close>; the buffer has room
    for every hook, so the send does not block.
  \<^item> \<open>RecvErr\<close>: one turn of the loop \<^verbatim>\<open>for i := 0; i < cap(errs); i++\<close>, which
    receives from \<^verbatim>\<open>errs\<close> and logs an error that is not nil.
  \<^item> \<open>Finish\<close>: the loop is over, the deferred \<^verbatim>\<open>close(c.done)\<close> runs and the once
    is marked done.
\<close>

datatype closer_event = Add "hook list" | CloseCall | RunHook nat | RecvErr | Finish

fun closer_step :: "closer_event \<Rightarrow> closer \<Rightarrow> closer option" where
  "closer_step (Add fs) c = Some (c\<lparr>funcs := funcs c @ fs\<rparr>)"
| "closer_step CloseCall c =
     (if c_once c = Fresh
      then Some (c\<lparr>c_once := Running, run_funcs := funcs c, funcs := [],
                   ran := replicate (length (funcs c)) False, errs := [], i := 0\<rparr>)
      else Some c)"
| "closer_step (RunHook j) c =
     (if j < length (run_funcs c) \<and> j < length (ran c) \<and> \<not> ran c ! j
      then Some (c\<lparr>ran := (ran c)[j := True],
                   errs := errs c @ [hook_err (run_funcs c ! j)],
                   executed := executed c @ [run_funcs c ! j]\<rparr>)
      else None)"
| "closer_step RecvErr c =
     (if c_once c = Running \<and> i c < length (run_funcs c)
      then (case errs c of
              [] \<Rightarrow> None
            | e # rest \<Rightarrow>
                Some (c\<lparr>errs := rest, i := i c + 1,
                        log_lines := (case e of None \<Rightarrow> log_lines c
                                      | Some msg \<Rightarrow> log_lines c @ [''closer: '' @ msg])\<rparr>))
      else None)"
| "closer_step Finish c =
     (if c_once c = Running \<and> i c = length (run_funcs c)
      then Some (c\<lparr>c_done := True, c_once := Finished\<rparr>)
      else None)"

fun closer_run :: "closer_event list \<Rightarrow> closer \<Rightarrow> closer option" where
  "closer_run [] c = Some c"
| "closer_run (e # es) c =
     (case closer_step e c of None \<Rightarrow> None | Some c1 \<Rightarrow> closer_run es c1)"

text \<open>\<^verbatim>\<open>Wait\<close>: \<^verbatim>\<open><-c.done\<close>, which blocks (\<open>None\<close>) until the channel is closed.\<close>

definition Wait :: "closer \<Rightarrow> unit option" where
  "Wait c = (if c_done c then Some () else None)"

text \<open>The hooks handed to \<^verbatim>\<open>Add\<close> by a sequence of steps, in order.\<close>

fun added :: "closer_event list \<Rightarrow> hook list" where
  "added [] = []"
| "added (Add fs # es) = fs @ added es"
| "added (_ # es) = added es"

text \<open>
  The steps of the run itself (the goroutines and the loop), as opposed to the calls made
  from outside, and a bound on how many of them are left.
\<close>

fun internal :: "closer_event \<Rightarrow> bool" where
  "internal (RunHook _) = True"
| "internal RecvErr = True"
| "internal Finish = True"
| "internal _ = False"

definition closer_todo :: "closer \<Rightarrow> nat" where
  "closer_todo c =
     length (filter Not (ran c)) + (length (run_funcs c) - i c) +
     (if c_once c = Running then 1 else 0)"

section \<open>Package crawler: the fetch dispatcher\<close>

subsection \<open>Errors, results and the outside world\<close>

text \<open>
  One constructor per place where the package makes an error, carrying what the format
  string is given; \<open>Canceled\<close> and \<open>DeadlineExceeded\<close> are the two errors of package
  context, \<open>External\<close> an error made by the standard library (net/http, io,
  encoding/json), \<open>UrlError\<close> the \<^verbatim>\<open>*url.Error\<close> in which the HTTP client wraps the
  context's error when the request's context ends while the request is in flight.
\<close>

datatype error =
    Canceled
  | DeadlineExceeded
  | External string
  | UrlError string error
  | InvalidURL string
  | FailedToCrawl string error
  | ExitOnContextDone error
  | CreateRequest error
  | SendRequest error
  | UnexpectedStatus int
  | ReadBody error
  | UnmarshalJSON error
  | CompactJSON error

record Result =
  SourceURL :: string
  StatusCode :: int
  ResponseBody :: string
  err :: "error option"

record Config =
  MaxConnections :: "16 word"
  RequestTimeout :: int

definition defaultConfig :: Config where
  "defaultConfig = \<lparr>MaxConnections = 4, RequestTimeout = 1000000000\<rparr>"

text \<open>
  What the package asks of the standard library and of the network is a parameter, one
  function per call: \<^verbatim>\<open>url.ParseRequestURI\<close> (an error, or the parsed URI, of which
  the code reads \<open>Scheme\<close> and \<open>Host\<close>), \<^verbatim>\<open>http.NewRequest\<close> (its error),
  \<^verbatim>\<open>client.Do\<close> (an error, or the response: status code, and what
  \<^verbatim>\<open>ioutil.ReadAll\<close> gives on its body), \<^verbatim>\<open>json.Unmarshal\<close> (its error) and
  \<^verbatim>\<open>json.Compact\<close>. The client's timeout is part of what \<open>Do\<close> answers.
\<close>

record URL =
  Scheme :: string
  Host :: string

record Response =
  resp_StatusCode :: int
  resp_Body :: "error + string"

record world =
  ParseRequestURI :: "string \<Rightarrow> error + URL"
  NewRequest :: "string \<Rightarrow> error option"
  Do :: "string \<Rightarrow> error + Response"
  Unmarshal :: "string \<Rightarrow> error option"
  Compact :: "string \<Rightarrow> error + string"

text \<open>A Go slice that may be nil: \<open>None\<close> is nil, and \<^verbatim>\<open>len\<close> of nil is 0.\<close>

type_synonym 'a slice = "'a list option"

definition len :: "'a slice \<Rightarrow> nat" where
  "len xs = (case xs of None \<Rightarrow> 0 | Some ys \<Rightarrow> length ys)"

subsection \<open>\<^verbatim>\<open>crawl\<close>: one task\<close>

text \<open>
  The function has one call that waits on the network, \<^verbatim>\<open>cr.client.Do(req)\<close>.
  \<open>crawl_begin\<close> is the part before it: the check of the context (\<open>cx\<close> is
  \<^verbatim>\<open>ctx.Err()\<close>, \<open>None\<close> while the context is not done) and the making of the request;
  it gives the result when the function returns there, \<open>None\<close> when the request is to
  be sent. \<open>crawl_end\<close> is the part after it, from what \<^verbatim>\<open>Do\<close> answered.
\<close>

definition errResult :: "string \<Rightarrow> error \<Rightarrow> Result" where
  "errResult url e = \<lparr>SourceURL = url, StatusCode = 0, ResponseBody = [], err = Some e\<rparr>"

definition crawl_begin :: "world \<Rightarrow> error option \<Rightarrow> string \<Rightarrow> Result option" where
  "crawl_begin w cx url =
     (case cx of
        Some e \<Rightarrow> Some (errResult url (ExitOnContextDone e))
      | None \<Rightarrow>
          (case NewRequest w url of
             Some e \<Rightarrow> Some (errResult url (CreateRequest e))
           | None \<Rightarrow> None))"

definition crawl_end :: "world \<Rightarrow> string \<Rightarrow> error + Response \<Rightarrow> Result" where
  "crawl_end w url answer =
     (case answer of
        Inl e \<Rightarrow> errResult url (SendRequest e)
      | Inr resp \<Rightarrow>
          if resp_StatusCode resp \<noteq> 200
          then errResult url (UnexpectedStatus (resp_StatusCode resp))
          else (case resp_Body resp of
                  Inl e \<Rightarrow> errResult url (ReadBody e)
                | Inr body \<Rightarrow>
                    (case Unmarshal w body of
                       Some e \<Rightarrow> errResult url (UnmarshalJSON e)
                     | None \<Rightarrow>
                         (case Compact w body of
                            Inl e \<Rightarrow> errResult url (CompactJSON e)
                          | Inr buffer \<Rightarrow>
                              \<lparr>SourceURL = url, StatusCode = resp_StatusCode resp,
                               ResponseBody = buffer, err = None\<rparr>))))"

text \<open>The whole function, when the context does not end while the request is in flight.\<close>

definition crawl :: "world \<Rightarrow> error option \<Rightarrow> string \<Rightarrow> Result" where
  "crawl w cx url =
     (case crawl_begin w cx url of
        Some res \<Rightarrow> res
      | None \<Rightarrow> crawl_end w url (Do w url))"

subsection \<open>\<^verbatim>\<open>Crawl\<close>: before the workers start\<close>

text \<open>The test of the validation loop, and the loop: the first invalid URL ends it.\<close>

definition invalid_url :: "world \<Rightarrow> string \<Rightarrow> bool" where
  "invalid_url w checkURL =
     (case ParseRequestURI w checkURL of
        Inl e \<Rightarrow> True
      | Inr uri \<Rightarrow> Host uri = [] \<or> Scheme uri = [])"

fun validate :: "world \<Rightarrow> string list \<Rightarrow> string list \<Rightarrow> error option \<times> string list" where
  "validate w [] tasks = (None, tasks)"
| "validate w (checkURL # rest) tasks =
     (if invalid_url w checkURL then (Some (InvalidURL checkURL), tasks)
      else validate w rest (tasks @ [checkURL]))"

text \<open>
  A worker is at its \<^verbatim>\<open>select\<close> (\<open>Selecting\<close>), has received a task and is about to
  call \<^verbatim>\<open>crawl\<close> (\<open>Crawling\<close>), is inside \<^verbatim>\<open>client.Do\<close> (\<open>Requesting\<close>), is blocked
  on \<^verbatim>\<open>results <- res\<close> (\<open>Sending\<close>; the channel is unbuffered), or has returned and
  its deferred \<^verbatim>\<open>wg.Done()\<close> has run (\<open>Exited\<close>).
\<close>

datatype worker = Selecting | Crawling string | Requesting string | Sending Result | Exited

text \<open>
  The state of one call once the workers are started. \<open>ctx_parent\<close> is the error of the
  caller's context and \<open>ctx\<close> that of the context derived from it by
  \<^verbatim>\<open>context.WithCancel\<close> (\<open>None\<close>: not done); \<open>tasks\<close> is the content of the closed,
  buffered channel; \<open>handling\<close> is the result the loop \<^verbatim>\<open>for res := range results\<close> has
  received and not yet dealt with; \<open>exitErr\<close> and \<open>out\<close> are the locals of that name;
  \<open>returned\<close> is what the call returned. \<open>produced\<close> and \<open>observed\<close> are history
  variables, read by no step: the results \<^verbatim>\<open>crawl\<close> returned to the workers, and the
  results the loop dealt with, in order.
\<close>

record DispatchRun =
  ctx_parent :: "error option"
  ctx :: "error option"
  tasks :: "string list"
  workers :: "worker list"
  results_closed :: bool
  handling :: "Result option"
  exitErr :: "error option"
  out :: "Result list"
  returned :: "(Result slice \<times> error option) option"
  produced :: "Result list"
  observed :: "Result list"

text \<open>
  \<^verbatim>\<open>Crawl\<close> up to the start of the workers: \<open>Inl\<close> is what it returns when it
  returns before starting any, \<open>Inr\<close> the state in which the workers start. \<open>cx\<close> is the
  error of the caller's context at the first \<^verbatim>\<open>select\<close>.
\<close>

definition Crawl_start ::
  "Config \<Rightarrow> world \<Rightarrow> error option \<Rightarrow> string list \<Rightarrow> (Result slice \<times> error option) + DispatchRun"
where
  "Crawl_start cfg w cx urls =
     (case cx of
        Some e \<Rightarrow> Inl (None, Some e)
      | None \<Rightarrow>
          if length urls = 0 then Inl (None, None)
          else (case validate w urls [] of
                  (Some invalidURLErr, queue) \<Rightarrow> Inl (None, Some invalidURLErr)
                | (None, queue) \<Rightarrow>
                    let numWorkers = unat (MaxConnections cfg);
                        numWorkers = (if numWorkers > length urls then length urls else numWorkers)
                    in Inr \<lparr>ctx_parent = None, ctx = None, tasks = queue,
                            workers = replicate numWorkers Selecting, results_closed = False,
                            handling = None, exitErr = None, out = [], returned = None,
                            produced = [], observed = []\<rparr>))"

text \<open>The number of workers the call has started.\<close>

definition started :: "(Result slice \<times> error option) + DispatchRun \<Rightarrow> nat" where
  "started r = (case r of Inl _ \<Rightarrow> 0 | Inr s \<Rightarrow> length (workers s))"

subsection \<open>\<^verbatim>\<open>Crawl\<close>: the workers and the loop over the results\<close>

text \<open>
  The goroutines of one call (the workers, the loop of \<^verbatim>\<open>Crawl\<close> over
  \<^verbatim>\<open>results\<close>, the goroutine that waits for the workers and closes \<^verbatim>\<open>results\<close>)
  and the caller, who may end the context at any moment, take steps one at a time in any
  order:
  \<^item> \<open>CallerCancel e\<close>: the caller's context ends with error \<open>e\<close>; the derived context
    ends with it unless it has ended already.
  \<^item> \<open>SelectDone k\<close>: the \<^verbatim>\<open>select\<close> of worker \<open>k\<close> takes \<^verbatim>\<open>case <-ctx.Done()\<close>.
  \<^item> \<open>SelectTask k\<close>: it takes \<^verbatim>\<open>case url, open := <-tasks\<close>; the channel is closed,
    so the receive never blocks, and gives \<^verbatim>\<open>open = false\<close> once the buffer is empty.
    Both cases may be ready, and Go picks either.
  \<^item> \<open>BeginCrawl k\<close>: worker \<open>k\<close> runs \<^verbatim>\<open>crawl\<close> up to \<^verbatim>\<open>client.Do\<close>.
  \<^item> \<open>EndCrawl k how\<close>: \<^verbatim>\<open>client.Do\<close> answers and worker \<open>k\<close> runs the rest of
    \<^verbatim>\<open>crawl\<close>. The request carries the context: once the context has ended, the client
    may answer with the context's error (\<open>AbortedDo\<close>) or the reading of the body may fail with
    it (\<open>AbortedRead\<close>); \<open>Completed\<close> is the world's answer.
  \<^item> \<open>RecvResult k\<close>: the loop receives what worker \<open>k\<close> is sending.
  \<^item> \<open>HandleResult\<close>: the body of the loop, on the result received.
  \<^item> \<open>CloseResults\<close>: \<^verbatim>\<open>wg.Wait()\<close> returns, every worker having exited, and
    \<^verbatim>\<open>results\<close> is closed.
  \<^item> \<open>Return\<close>: the loop ends on the closed channel, \<^verbatim>\<open>Crawl\<close> returns, and the
    deferred \<^verbatim>\<open>cancel()\<close> runs.
\<close>

datatype inflight = Completed | AbortedDo | AbortedRead

datatype event =
    CallerCancel error
  | SelectDone nat
  | SelectTask nat
  | BeginCrawl nat
  | EndCrawl nat inflight
  | RecvResult nat
  | HandleResult
  | CloseResults
  | Return

definition worker_at :: "DispatchRun \<Rightarrow> nat \<Rightarrow> worker option" where
  "worker_at s k = (if k < length (workers s) then Some (workers s ! k) else None)"

definition set_worker :: "nat \<Rightarrow> worker \<Rightarrow> DispatchRun \<Rightarrow> DispatchRun" where
  "set_worker k wk s = s\<lparr>workers := (workers s)[k := wk]\<rparr>"

text \<open>Worker \<open>k\<close> has its result and goes to \<^verbatim>\<open>results <- res\<close>.\<close>

definition send :: "nat \<Rightarrow> Result \<Rightarrow> DispatchRun \<Rightarrow> DispatchRun" where
  "send k res s = (set_worker k (Sending res) s)\<lparr>produced := produced s @ [res]\<rparr>"

text \<open>\<^verbatim>\<open>cancel()\<close> on the derived context: it ends with \<open>Canceled\<close> unless it has ended.\<close>

definition cancel :: "error option \<Rightarrow> error option" where
  "cancel cx = (case cx of None \<Rightarrow> Some Canceled | Some e \<Rightarrow> Some e)"

text \<open>The body of \<^verbatim>\<open>for res := range results\<close>.\<close>

definition handle_result :: "Result \<Rightarrow> DispatchRun \<Rightarrow> DispatchRun" where
  "handle_result res s =
     (if exitErr s \<noteq> None then s
      else (case err res of
              Some e \<Rightarrow> s\<lparr>exitErr := Some (FailedToCrawl (SourceURL res) e), ctx := cancel (ctx s)\<rparr>
            | None \<Rightarrow> s\<lparr>out := out s @ [res]\<rparr>))"

text \<open>What \<^verbatim>\<open>client.Do\<close> and the reading of the body give for a request in flight.\<close>

definition answer_of :: "world \<Rightarrow> string \<Rightarrow> inflight \<Rightarrow> error option \<Rightarrow> (error + Response) option" where
  "answer_of w url how cx =
     (case how of
        Completed \<Rightarrow> Some (Do w url)
      | AbortedDo \<Rightarrow> (case cx of None \<Rightarrow> None | Some e \<Rightarrow> Some (Inl (UrlError url e)))
      | AbortedRead \<Rightarrow>
          (case cx of
             None \<Rightarrow> None
           | Some e \<Rightarrow>
               (case Do w url of
                  Inl e1 \<Rightarrow> Some (Inl e1)
                | Inr resp \<Rightarrow> Some (Inr (resp\<lparr>resp_Body := Inl e\<rparr>)))))"

text \<open>The end of the call: \<^verbatim>\<open>if exitErr != nil { return nil, exitErr }; return out, nil\<close>.\<close>

definition return_value :: "DispatchRun \<Rightarrow> Result slice \<times> error option" where
  "return_value s = (case exitErr s of Some e \<Rightarrow> (None, Some e) | None \<Rightarrow> (Some (out s), None))"

fun act :: "world \<Rightarrow> event \<Rightarrow> DispatchRun \<Rightarrow> DispatchRun option" where
  "act w (CallerCancel e) s =
     (if ctx_parent s = None
      then Some (s\<lparr>ctx_parent := Some e,
                   ctx := (case ctx s of None \<Rightarrow> Some e | Some e1 \<Rightarrow> Some e1)\<rparr>)
      else None)"
| "act w (SelectDone k) s =
     (case worker_at s k of
        Some Selecting \<Rightarrow> if ctx s \<noteq> None then Some (set_worker k Exited s) else None
      | _ \<Rightarrow> None)"
| "act w (SelectTask k) s =
     (case worker_at s k of
        Some Selecting \<Rightarrow>
          (case tasks s of
             [] \<Rightarrow> Some (set_worker k Exited s)
           | url # rest \<Rightarrow> Some ((set_worker k (Crawling url) s)\<lparr>tasks := rest\<rparr>))
      | _ \<Rightarrow> None)"
| "act w (BeginCrawl k) s =
     (case worker_at s k of
        Some (Crawling url) \<Rightarrow>
          (case crawl_begin w (ctx s) url of
             Some res \<Rightarrow> Some (send k res s)
           | None \<Rightarrow> Some (set_worker k (Requesting url) s))
      | _ \<Rightarrow> None)"
| "act w (EndCrawl k how) s =
     (case worker_at s k of
        Some (Requesting url) \<Rightarrow>
          (case answer_of w url how (ctx s) of
             None \<Rightarrow> None
           | Some answer \<Rightarrow> Some (send k (crawl_end w url answer) s))
      | _ \<Rightarrow> None)"
| "act w (RecvResult k) s =
     (case worker_at s k of
        Some (Sending res) \<Rightarrow>
          if handling s = None then Some ((set_worker k Selecting s)\<lparr>handling := Some res\<rparr>)
          else None
      | _ \<Rightarrow> None)"
| "act w HandleResult s =
     (case handling s of
        None \<Rightarrow> None
      | Some res \<Rightarrow>
          Some ((handle_result res s)\<lparr>handling := None, observed := observed s @ [res]\<rparr>))"
| "act w CloseResults s =
     (if \<not> results_closed s \<and> list_all (\<lambda>wk. wk = Exited) (workers s)
      then Some (s\<lparr>results_closed := True\<rparr>)
      else None)"
| "act w Return s =
     (if results_closed s \<and> handling s = None
      then Some (s\<lparr>returned := Some (return_value s), ctx := cancel (ctx s)\<rparr>)
      else None)"

text \<open>Nothing of the call runs once it has returned.\<close>

definition step :: "world \<Rightarrow> event \<Rightarrow> DispatchRun \<Rightarrow> DispatchRun option" where
  "step w ev s = (if returned s \<noteq> None then None else act w ev s)"

fun run :: "world \<Rightarrow> event list \<Rightarrow> DispatchRun \<Rightarrow> DispatchRun option" where
  "run w [] s = Some s"
| "run w (ev # evs) s = (case step w ev s of None \<Rightarrow> None | Some s1 \<Rightarrow> run w evs s1)"

text \<open>
  The call under a schedule: what it returns, \<open>None\<close> when the schedule cannot be
  followed or stops before the call returns.
\<close>

definition Crawl ::
  "Config \<Rightarrow> world \<Rightarrow> error option \<Rightarrow> string list \<Rightarrow> event list \<Rightarrow> (Result slice \<times> error option) option"
where
  "Crawl cfg w cx urls evs =
     (case Crawl_start cfg w cx urls of
        Inl r \<Rightarrow> Some r
      | Inr s \<Rightarrow> (case run w evs s of None \<Rightarrow> None | Some s1 \<Rightarrow> returned s1))"

subsection \<open>What the loop and the workers keep true\<close>

text \<open>
  The first failed result of a sequence of results, wrapped as the loop wraps it; and the
  relation between the loop's locals and the results it has dealt with.
\<close>

fun first_error :: "Result list \<Rightarrow> error option" where
  "first_error [] = None"
| "first_error (res # rest) =
     (case err res of
        Some e \<Rightarrow> Some (FailedToCrawl (SourceURL res) e)
      | None \<Rightarrow> first_error rest)"

definition loop_inv :: "DispatchRun \<Rightarrow> bool" where
  "loop_inv s =
     (exitErr s = first_error (observed s) \<and>
      out s = takeWhile (\<lambda>res. err res = None) (observed s))"

text \<open>
  Every result a worker got from \<^verbatim>\<open>crawl\<close> has been dealt with by the loop, is held by
  the loop, or is still being sent.
\<close>

definition flow_inv :: "DispatchRun \<Rightarrow> bool" where
  "flow_inv s =
     (\<forall>res \<in> set (produced s).
        res \<in> set (observed s) \<or> handling s = Some res \<or> Sending res \<in> set (workers s))"

text \<open>
  \<^verbatim>\<open>results\<close> is closed only after every worker has exited, and the call returns only
  on the closed channel, with nothing left to deal with.
\<close>

definition final_inv :: "DispatchRun \<Rightarrow> bool" where
  "final_inv s =
     ((results_closed s \<longrightarrow> list_all (\<lambda>wk. wk = Exited) (workers s)) \<and>
      (\<forall>rv. returned s = Some rv \<longrightarrow>
         results_closed s \<and> handling s = None \<and> rv = return_value s))"

definition run_inv :: "DispatchRun \<Rightarrow> bool" where
  "run_inv s = (loop_inv s \<and> flow_inv s \<and> final_inv s)"

text \<open>
  A bound on the number of steps a call has left: every step makes it smaller. A task
  still queued costs six steps, a worker as many as it is away from its \<^verbatim>\<open>select\<close>.
\<close>

fun weight :: "worker \<Rightarrow> nat" where
  "weight Exited = 0"
| "weight Selecting = 1"
| "weight (Sending _) = 4"
| "weight (Requesting _) = 5"
| "weight (Crawling _) = 6"

definition todo :: "DispatchRun \<Rightarrow> nat" where
  "todo s =
     (if ctx_parent s = None then 1 else 0) + 6 * length (tasks s) +
     sum_list (map weight (workers s)) + (if handling s = None then 0 else 2) +
     (if results_closed s then 0 else 1) + (if returned s = None then 1 else 0)"

text \<open>
  The steps that need no cancellation by the caller and no request cut short: with them
  alone every call comes to its end.
\<close>

fun quiet :: "event \<Rightarrow> bool" where
  "quiet (CallerCancel _) = False"
| "quiet (EndCrawl _ how) = (how = Completed)"
| "quiet _ = True"

subsection \<open>A small world and a schedule, for examples\<close>

text \<open>
  Every URL that starts with \<^verbatim>\<open>http://\<close> parses; \<^verbatim>\<open>http://bad\<close> answers 500, any
  other URL answers 200 with a JSON body.
\<close>

definition demo_world :: world where
  "demo_world =
     \<lparr>ParseRequestURI =
        (\<lambda>u. if take 7 u = ''http://'' then Inr \<lparr>Scheme = ''http'', Host = drop 7 u\<rparr>
             else Inl (External ''invalid URI for request'')),
      NewRequest = (\<lambda>u. None),
      Do = (\<lambda>u. if u = ''http://bad'' then Inr \<lparr>resp_StatusCode = 500, resp_Body = Inr []\<rparr>
                 else Inr \<lparr>resp_StatusCode = 200, resp_Body = Inr ''{ }''\<rparr>),
      Unmarshal = (\<lambda>b. None),
      Compact = (\<lambda>b. Inr (filter (\<lambda>c. c \<noteq> CHR '' '') b))\<rparr>"

definition demo_schedule :: "event list" where
  "demo_schedule =
     [SelectTask 0, SelectTask 1, BeginCrawl 0, BeginCrawl 1, EndCrawl 1 Completed,
      RecvResult 1, HandleResult, SelectDone 1, EndCrawl 0 AbortedDo, RecvResult 0,
      HandleResult, SelectDone 0, CloseResults, Return]"

definition demo_urls :: "string list" where
  "demo_urls = [''http://a'', ''http://bad'']"

definition demo_start :: DispatchRun where
  "demo_start =
     \<lparr>ctx_parent = None, ctx = None, tasks = [''http://a'', ''http://bad''],
      workers = [Selecting, Selecting], results_closed = False, handling = None,
      exitErr = None, out = [], returned = None, produced = [], observed = []\<rparr>"

definition demo_final :: DispatchRun where
  "demo_final =
     \<lparr>ctx_parent = None, ctx = Some Canceled, tasks = [],
      workers = [Exited, Exited], results_closed = True, handling = None,
      exitErr = Some (FailedToCrawl ''http://bad'' (UnexpectedStatus 500)), out = [],
      returned = Some (None, Some (FailedToCrawl ''http://bad'' (UnexpectedStatus 500))),
      produced = [errResult ''http://bad'' (UnexpectedStatus 500),
                  errResult ''http://a'' (SendRequest (UrlError ''http://a'' Canceled))],
      observed = [errResult ''http://bad'' (UnexpectedStatus 500),
                  errResult ''http://a'' (SendRequest (UrlError ''http://a'' Canceled))]\<rparr>"

definition ok_urls :: "string list" where
  "ok_urls = [''http://a'', ''http://b'']"

definition ok_schedule :: "event list" where
  "ok_schedule =
     [SelectTask 0, SelectTask 1, BeginCrawl 1, EndCrawl 1 Completed, RecvResult 1,
      HandleResult, SelectTask 1, BeginCrawl 0, EndCrawl 0 Completed, RecvResult 0,
      HandleResult, SelectTask 0, CloseResults, Return]"

definition cancel_schedule :: "event list" where
  "cancel_schedule =
     [SelectTask 0, BeginCrawl 0, EndCrawl 0 Completed, RecvResult 0, HandleResult,
      CallerCancel Canceled, SelectDone 0, SelectDone 1, CloseResults, Return]"

definition okResult :: "string \<Rightarrow> Result" where
  "okResult url = \<lparr>SourceURL = url, StatusCode = 200, ResponseBody = ''{}'', err = None\<rparr>"

subsection \<open>When every task succeeds\<close>

text \<open>
  A task succeeds when \<^verbatim>\<open>crawl\<close>, run under a context that is not done, returns a result
  without error.
\<close>

definition fetch_succeeds :: "world \<Rightarrow> string \<Rightarrow> bool" where
  "fetch_succeeds w url = (err (crawl w None url) = None)"

fun caller_cancels :: "event \<Rightarrow> bool" where
  "caller_cancels (CallerCancel _) = True"
| "caller_cancels _ = False"

text \<open>
  While no task fails and the caller does not cancel: the context is not done, no error
  is latched, every task queued or held by a worker is one that succeeds, every URL of the
  list is queued, held by a worker, held by the loop or in \<open>out\<close>, and a worker has exited
  only on the empty queue.
\<close>

fun busy :: "worker \<Rightarrow> nat" where
  "busy (Crawling _) = 1"
| "busy (Requesting _) = 1"
| "busy (Sending _) = 1"
| "busy _ = 0"

fun worker_ok :: "world \<Rightarrow> worker \<Rightarrow> bool" where
  "worker_ok w (Crawling url) = fetch_succeeds w url"
| "worker_ok w (Requesting url) = fetch_succeeds w url"
| "worker_ok w (Sending res) = (err res = None)"
| "worker_ok w _ = True"

definition happy_inv :: "world \<Rightarrow> nat \<Rightarrow> DispatchRun \<Rightarrow> bool" where
  "happy_inv w n s =
     ((returned s = None \<longrightarrow> ctx s = None) \<and> ctx_parent s = None \<and> exitErr s = None \<and>
      (\<forall>url \<in> set (tasks s). fetch_succeeds w url) \<and>
      list_all (worker_ok w) (workers s) \<and>
      (\<forall>res. handling s = Some res \<longrightarrow> err res = None) \<and>
      length (out s) + (if handling s = None then 0 else 1) +
        sum_list (map busy (workers s)) + length (tasks s) = n \<and>
      (Exited \<in> set (workers s) \<longrightarrow> tasks s = []))"

subsection \<open>When a task is bound to fail\<close>

text \<open>
  Every URL in the queue, held by a worker, or carried by a result on its way to the
  loop or dealt with by it, is a URL of the list.
\<close>

fun worker_in :: "string list \<Rightarrow> worker \<Rightarrow> bool" where
  "worker_in urls (Crawling url) = (url \<in> set urls)"
| "worker_in urls (Requesting url) = (url \<in> set urls)"
| "worker_in urls (Sending res) = (SourceURL res \<in> set urls)"
| "worker_in urls _ = True"

definition url_inv :: "string list \<Rightarrow> DispatchRun \<Rightarrow> bool" where
  "url_inv urls s =
     (set (tasks s) \<subseteq> set urls \<and> list_all (worker_in urls) (workers s) \<and>
      (\<forall>res. handling s = Some res \<longrightarrow> SourceURL res \<in> set urls) \<and>
      (\<forall>res \<in> set (observed s). SourceURL res \<in> set urls))"

text \<open>
  While no task has failed and the caller does not cancel: the context is not done, no
  error is latched, no result on its way carries an error, a URL whose fetch fails is
  still queued or held by a worker, and a worker has exited only on the empty queue.
  A run stays so until a task fails, which it does before the last worker exits.
\<close>

fun worker_clean :: "worker \<Rightarrow> bool" where
  "worker_clean (Sending res) = (err res = None)"
| "worker_clean _ = True"

fun holds_failing :: "world \<Rightarrow> worker \<Rightarrow> bool" where
  "holds_failing w (Crawling url) = (\<not> fetch_succeeds w url)"
| "holds_failing w (Requesting url) = (err (crawl_end w url (Do w url)) \<noteq> None)"
| "holds_failing w _ = False"

definition unfailed_inv :: "world \<Rightarrow> DispatchRun \<Rightarrow> bool" where
  "unfailed_inv w s =
     ((returned s = None \<longrightarrow> ctx s = None) \<and> exitErr s = None \<and>
      list_all worker_clean (workers s) \<and>
      (\<forall>res. handling s = Some res \<longrightarrow> err res = None) \<and>
      ((\<exists>url \<in> set (tasks s). \<not> fetch_succeeds w url) \<or>
       list_ex (holds_failing w) (workers s)) \<and>
      (Exited \<in> set (workers s) \<longrightarrow> tasks s = []))"

definition doomed_inv :: "world \<Rightarrow> DispatchRun \<Rightarrow> bool" where
  "doomed_inv w s = ((\<exists>res \<in> set (produced s). err res \<noteq> None) \<or> unfailed_inv w s)"

section \<open>Package closer: what a run keeps true\<close>

text \<open>
  The hooks whose goroutine has run, in the order of \<open>run_funcs\<close>; the log lines of a
  sequence of hooks; and the relation of the loop's locals to the hooks called so far:
  the channel holds the errors of the hooks called and not yet received, the log those
  of the hooks received.
\<close>

definition ran_hooks :: "closer \<Rightarrow> hook list" where
  "ran_hooks c = map fst (filter snd (zip (run_funcs c) (ran c)))"

definition log_of :: "hook list \<Rightarrow> string list" where
  "log_of hs = map (\<lambda>msg. ''closer: '' @ msg) (List.map_filter hook_err hs)"

definition closer_inv :: "closer \<Rightarrow> bool" where
  "closer_inv c =
     (length (ran c) = length (run_funcs c) \<and>
      mset (executed c) = mset (ran_hooks c) \<and>
      i c \<le> length (executed c) \<and>
      errs c = map hook_err (drop (i c) (executed c)) \<and>
      log_lines c = log_of (take (i c) (executed c)) \<and>
      (c_once c = Fresh \<longrightarrow> run_funcs c = [] \<and> executed c = [] \<and> i c = 0) \<and>
      (c_done c \<longleftrightarrow> c_once c = Finished) \<and>
      (c_once c = Finished \<longrightarrow> i c = length (run_funcs c)))"

text \<open>Two hooks, the second failing, and a shutdown with two calls of \<^verbatim>\<open>Close\<close>.\<close>

definition demo_hook_a :: hook where
  "demo_hook_a = \<lparr>hook_name = ''drain'', hook_err = None\<rparr>"

definition demo_hook_b :: hook where
  "demo_hook_b = \<lparr>hook_name = ''http'', hook_err = Some ''http: shutting down: context deadline exceeded''\<rparr>"

definition demo_closing :: "closer_event list" where
  "demo_closing =
     [CloseCall, RunHook 1, RecvErr, RunHook 0, Add [demo_hook_a], RecvErr, Finish, CloseCall]"

definition demo_closed :: closer where
  "demo_closed =
     \<lparr>funcs = [demo_hook_a], c_once = Finished, c_done = True,
      run_funcs = [demo_hook_a, demo_hook_b], ran = [True, True], errs = [], i = 2,
      log_lines = [''closer: http: shutting down: context deadline exceeded''],
      executed = [demo_hook_b, demo_hook_a]\<rparr>"

section \<open>Properties of the admission semaphore and the acceptor\<close>

lemma gate_ok_New: "gate_ok (gate_New lim)"
  by (simp add: gate_ok_def gate_New_def ratelimiter_New_def)

lemma gate_ok_step:
  assumes "gate_step op g = Some g1" and "gate_ok g"
  shows "gate_ok g1"
proof (cases op)
  case OpDone
  then show ?thesis using assms by (auto simp: gate_ok_def Done_def split: if_splits)
next
  case (OpAcquire pick)
  then show ?thesis using assms
    by (cases pick) (auto simp: gate_ok_def Acquire_blocks_def split: if_splits)
next
  case OpRelease
  then show ?thesis using assms
    by (auto simp: gate_ok_def Release_def split: if_splits)
qed

lemma done_closed_step:
  assumes "gate_step op g = Some g1" and "gate_ok g" and "done_closed (limiter g) \<or> op = OpDone"
  shows "done_closed (limiter g1)"
proof (cases op)
  case OpDone
  then show ?thesis using assms by (auto simp: gate_ok_def Done_def split: if_splits)
next
  case (OpAcquire pick)
  then show ?thesis using assms
    by (cases pick) (auto simp: gate_ok_def Acquire_blocks_def split: if_splits)
next
  case OpRelease
  then show ?thesis using assms
    by (auto simp: gate_ok_def Release_def split: if_splits)
qed

lemma gate_run_ok: "gate_run ops g = Some g1 \<Longrightarrow> gate_ok g \<Longrightarrow> gate_ok g1"
proof (induction ops arbitrary: g)
  case Nil
  then show ?case by simp
next
  case (Cons op ops)
  from Cons.prems(1) obtain g2 where s: "gate_step op g = Some g2" and r: "gate_run ops g2 = Some g1"
    by (auto split: option.splits)
  show ?case using Cons.IH [OF r gate_ok_step [OF s Cons.prems(2)]] .
qed

lemma gate_run_closed:
  "gate_run ops g = Some g1 \<Longrightarrow> gate_ok g \<Longrightarrow> done_closed (limiter g) \<or> OpDone \<in> set ops
     \<Longrightarrow> done_closed (limiter g1)"
proof (induction ops arbitrary: g)
  case Nil
  then show ?case by simp
next
  case (Cons op ops)
  from Cons.prems(1) obtain g2 where s: "gate_step op g = Some g2" and r: "gate_run ops g2 = Some g1"
    by (auto split: option.splits)
  have ok2: "gate_ok g2" using gate_ok_step [OF s Cons.prems(2)] .
  have "done_closed (limiter g2) \<or> OpDone \<in> set ops"
    using Cons.prems(3) done_closed_step [OF s Cons.prems(2)] by auto
  then show ?case using Cons.IH [OF r ok2] by blast
qed

lemma gate_run_append:
  "gate_run (ops @ ops1) g =
     (case gate_run ops g of None \<Rightarrow> None | Some g1 \<Rightarrow> gate_run ops1 g1)"
  by (induction ops arbitrary: g) (auto split: option.splits)

lemma closed_Acquire:
  "done_closed rl \<Longrightarrow>
     \<not> Acquire_blocks rl \<and> Acquire CaseDone rl = Some (False, rl) \<and>
     (limit rl \<le> window rl \<longrightarrow> Acquire CaseSend rl = None) \<and>
     (window rl < limit rl \<longrightarrow>
        Acquire CaseSend rl =
          Some (True, rl\<lparr>window := window rl + 1, acquired := acquired rl + 1\<rparr>))"
  by (simp add: Acquire_blocks_def)

lemma Done_wakes:
  assumes "gate_ok g"
  shows "\<exists>g1. gate_step OpDone g = Some g1 \<and> parked g1 = 0 \<and>
           woken_false g1 = woken_false g + parked g \<and> woken_true g1 = woken_true g \<and>
           acquired (limiter g1) = acquired (limiter g)"
  using assms by (auto simp: gate_ok_def Done_def)

text \<open>
  Claim C3, as the code has it. When \<^verbatim>\<open>Done\<close> is called, every call of
  \<^verbatim>\<open>Acquire\<close> that waits returns false, and none of them takes a slot. From then on, in
  whatever state the limiter is, no call of \<^verbatim>\<open>Acquire\<close> waits: the case
  \<^verbatim>\<open><-rl.done\<close> of its \<^verbatim>\<open>select\<close> is ready, and returns false without changing the
  limiter. While the window is full it is the only ready case, so \<^verbatim>\<open>Acquire\<close> returns
  false. While the window has a free slot the send is ready as well, and when the
  \<^verbatim>\<open>select\<close> picks it \<^verbatim>\<open>Acquire\<close> takes the slot and returns true.
\<close>

theorem Acquire_after_Done:
  assumes "gate_run ops (gate_New lim) = Some g" and "OpDone \<in> set ops"
  shows "parked g = 0 \<and> \<not> Acquire_blocks (limiter g) \<and>
         Acquire CaseDone (limiter g) = Some (False, limiter g) \<and>
         (limit (limiter g) \<le> window (limiter g) \<longrightarrow> Acquire CaseSend (limiter g) = None) \<and>
         (window (limiter g) < limit (limiter g) \<longrightarrow>
            Acquire CaseSend (limiter g) =
              Some (True, (limiter g)\<lparr>window := window (limiter g) + 1,
                                       acquired := acquired (limiter g) + 1\<rparr>)) \<and>
         (\<forall>pre post g0. ops = pre @ OpDone # post \<longrightarrow> gate_run pre (gate_New lim) = Some g0 \<longrightarrow>
            (\<exists>g1. gate_step OpDone g0 = Some g1 \<and> parked g1 = 0 \<and>
                  woken_false g1 = woken_false g0 + parked g0 \<and> woken_true g1 = woken_true g0 \<and>
                  acquired (limiter g1) = acquired (limiter g0)))"
proof -
  have ok: "gate_ok g" using gate_run_ok [OF assms(1) gate_ok_New] .
  have d: "done_closed (limiter g)"
    using gate_run_closed [OF assms(1) gate_ok_New] assms(2) by blast
  have p: "parked g = 0" using ok d by (auto simp: gate_ok_def)
  have w: "\<exists>g1. gate_step OpDone g0 = Some g1 \<and> parked g1 = 0 \<and>
                  woken_false g1 = woken_false g0 + parked g0 \<and> woken_true g1 = woken_true g0 \<and>
                  acquired (limiter g1) = acquired (limiter g0)"
    if "gate_run pre (gate_New lim) = Some g0" for pre g0
    using Done_wakes [OF gate_run_ok [OF that gate_ok_New]] .
  show ?thesis using p closed_Acquire [OF d] w by blast
qed

text \<open>
  The claim as the specification words it (no acquisition succeeds on a closed gate)
  fails on a limiter of capacity one that is closed while its slot is free: the
  \<^verbatim>\<open>select\<close> of a later \<^verbatim>\<open>Acquire\<close> may pick the send, and the call returns true.
\<close>

theorem Acquire_after_Done_counterexample:
  "Acquire CaseSend (Done (ratelimiter_New 1)) =
     Some (True, \<lparr>window = 1, limit = 1, done_closed = True, once = True,
                  acquired = 1, released = 0\<rparr>)"
  by (simp add: Done_def ratelimiter_New_def)

theorem Acquire_after_Done_witness:
  "gate_run [OpAcquire CaseSend, OpAcquire CaseSend, OpDone] (gate_New 1) =
     Some \<lparr>limiter = \<lparr>window = 1, limit = 1, done_closed = True, once = True,
                      acquired = 1, released = 0\<rparr>,
           parked = 0, woken_false = 1, woken_true = 0\<rparr> \<and>
   Acquire CaseDone \<lparr>window = 1, limit = 1, done_closed = True, once = True, acquired = 1, released = 0\<rparr>
     = Some (False, \<lparr>window = 1, limit = 1, done_closed = True, once = True, acquired = 1, released = 0\<rparr>) \<and>
   Acquire CaseSend \<lparr>window = 1, limit = 1, done_closed = True, once = True, acquired = 1, released = 0\<rparr> = None"
proof -
  have r: "gate_run [OpAcquire CaseSend, OpAcquire CaseSend, OpDone] (gate_New 1) =
     Some \<lparr>limiter = \<lparr>window = 1, limit = 1, done_closed = True, once = True,
                      acquired = 1, released = 0\<rparr>,
           parked = 0, woken_false = 1, woken_true = 0\<rparr>"
    by (simp add: Done_def ratelimiter_New_def gate_New_def Acquire_blocks_def)
  have m: "OpDone \<in> set [OpAcquire CaseSend, OpAcquire CaseSend, OpDone]" by simp
  show ?thesis using Acquire_after_Done [OF r m] r by simp
qed



text \<open>
  Claim C10. On a closed gate, when the \<^verbatim>\<open>select\<close> of \<^verbatim>\<open>Acquire\<close> takes the closed
  case, \<^verbatim>\<open>Acquire\<close> returns false and leaves the limiter as it is (no slot is taken and
  \<open>acquired\<close> does not grow); when the wrapped listener then answers with a connection,
  \<^verbatim>\<open>Accept\<close> returns it wrapped all the same, and the first \<^verbatim>\<open>Close\<close> of that
  connection calls \<^verbatim>\<open>Release\<close>: with a slot in the window it takes the slot out (a
  release with no acquisition of its own, \<open>released\<close> grows by one), with an empty
  window it blocks.
\<close>

theorem Accept_on_closed_gate:
  assumes "done_closed rl"
  shows "Acquire CaseDone rl = Some (False, rl) \<and>
         Accept CaseDone (Inr raw) rl = Some (Inr \<lparr>Conn = raw, conn_once = False\<rparr>, rl) \<and>
         conn_Close cerr \<lparr>Conn = raw, conn_once = False\<rparr> rl =
           map_option (\<lambda>rl1. (cerr, \<lparr>Conn = raw, conn_once = True\<rparr>, rl1)) (Release rl) \<and>
         (0 < window rl \<longrightarrow>
            Release rl = Some (rl\<lparr>window := window rl - 1, released := released rl + 1\<rparr>)) \<and>
         (window rl = 0 \<longrightarrow> conn_Close cerr \<lparr>Conn = raw, conn_once = False\<rparr> rl = None)"
  using assms by (simp add: Accept_def conn_Close_def Release_def)

text \<open>
  An instance: a limiter of capacity two holds the slot of one open connection when the
  gate is closed; a connection accepted after that takes that slot out at its
  \<^verbatim>\<open>Close\<close>, and the \<^verbatim>\<open>Close\<close> of the connection that had acquired the slot then
  blocks on the empty window.
\<close>

theorem Accept_on_closed_gate_witness:
  "done_closed \<lparr>window = 1, limit = 2, done_closed = True, once = True, acquired = 1, released = 0\<rparr> \<and>
   Accept CaseDone (Inr 9) \<lparr>window = 1, limit = 2, done_closed = True, once = True, acquired = 1, released = 0\<rparr> =
     Some (Inr \<lparr>Conn = 9, conn_once = False\<rparr>,
           \<lparr>window = 1, limit = 2, done_closed = True, once = True, acquired = 1, released = 0\<rparr>) \<and>
   conn_Close None \<lparr>Conn = 9, conn_once = False\<rparr>
       \<lparr>window = 1, limit = 2, done_closed = True, once = True, acquired = 1, released = 0\<rparr> =
     Some (None, \<lparr>Conn = 9, conn_once = True\<rparr>,
           \<lparr>window = 0, limit = 2, done_closed = True, once = True, acquired = 1, released = 1\<rparr>) \<and>
   conn_Close None \<lparr>Conn = 7, conn_once = False\<rparr>
       \<lparr>window = 0, limit = 2, done_closed = True, once = True, acquired = 1, released = 1\<rparr> = None"
proof -
  have d: "done_closed \<lparr>window = 1, limit = 2, done_closed = True, once = True, acquired = 1, released = 0\<rparr>"
    by simp
  have b: "conn_Close None \<lparr>Conn = 7, conn_once = False\<rparr>
       \<lparr>window = 0, limit = 2, done_closed = True, once = True, acquired = 1, released = 1\<rparr> = None"
    by (simp add: conn_Close_def Release_def)
  show ?thesis using Accept_on_closed_gate [OF d, of 9 None] b by simp
qed

section \<open>Properties of the shutdown coordinator\<close>

lemma ran_update:
  "j < length fs \<Longrightarrow> length rs = length fs \<Longrightarrow> \<not> rs ! j \<Longrightarrow>
   mset (map fst (filter snd (zip fs (rs[j := True])))) =
     add_mset (fs ! j) (mset (map fst (filter snd (zip fs rs))))"
proof (induction fs arbitrary: rs j)
  case Nil
  then show ?case by simp
next
  case (Cons f fs)
  then obtain r rs1 where rs: "rs = r # rs1" by (cases rs) auto
  show ?case
  proof (cases j)
    case 0
    then show ?thesis using Cons.prems rs by simp
  next
    case (Suc k)
    then have "mset (map fst (filter snd (zip fs (rs1[k := True])))) =
        add_mset (fs ! k) (mset (map fst (filter snd (zip fs rs1))))"
      using Cons.prems rs by (intro Cons.IH) auto
    then show ?thesis using Suc rs by simp
  qed
qed

lemma ran_none: "map fst (filter snd (zip fs (replicate n False))) = []"
proof -
  have "filter snd (zip fs (replicate n False)) = []"
    by (auto simp: filter_empty_conv dest: set_zip_rightD)
  then show ?thesis by simp
qed

lemma ran_sub: "mset (map fst (filter snd (zip fs rs))) \<subseteq># mset fs"
proof (induction fs arbitrary: rs)
  case Nil
  then show ?case by simp
next
  case (Cons f fs)
  show ?case
  proof (cases rs)
    case Nil
    then show ?thesis by simp
  next
    case (Cons r rs1)
    have "mset (map fst (filter snd (zip fs rs1))) \<subseteq># mset fs" by (rule Cons.IH)
    then show ?thesis using Cons by (auto intro: subset_mset.order_trans)
  qed
qed

lemma ran_all:
  "length rs = length fs \<Longrightarrow> length (map fst (filter snd (zip fs rs))) = length fs \<Longrightarrow>
   map fst (filter snd (zip fs rs)) = fs \<and> list_all (\<lambda>b. b) rs"
proof (induction fs arbitrary: rs)
  case Nil
  then show ?case by simp
next
  case (Cons f fs)
  then obtain r rs1 where rs: "rs = r # rs1" by (cases rs) auto
  have le: "length (filter snd (zip fs rs1)) \<le> length fs"
    using length_filter_le [of snd "zip fs rs1"] Cons.prems(1) rs by simp
  show ?case
  proof (cases r)
    case True
    then show ?thesis using Cons rs by simp
  next
    case False
    then show ?thesis using Cons.prems rs le by simp
  qed
qed

lemma not_ran_update:
  "j < length rs \<Longrightarrow> \<not> rs ! j \<Longrightarrow>
   Suc (length (filter Not (rs[j := True]))) = length (filter Not rs)"
proof (induction rs arbitrary: j)
  case Nil
  then show ?case by simp
next
  case (Cons r rs)
  then show ?case by (cases j) auto
qed

lemma all_ran:
  "length rs = length fs \<Longrightarrow> \<forall>j < length rs. rs ! j \<Longrightarrow>
   length (map fst (filter snd (zip fs rs))) = length fs"
proof (induction fs arbitrary: rs)
  case Nil
  then show ?case by simp
next
  case (Cons f fs)
  then obtain r rs1 where rs: "rs = r # rs1" by (cases rs) auto
  have r: "r" using Cons.prems(2) rs by auto
  have "\<forall>j < length rs1. rs1 ! j" using Cons.prems(2) rs by auto
  then have "length (map fst (filter snd (zip fs rs1))) = length fs"
    using Cons.prems(1) rs by (intro Cons.IH) auto
  then show ?case using rs r by simp
qed

lemma map_filter_snoc:
  "List.map_filter f (xs @ [x]) =
     List.map_filter f xs @ (case f x of None \<Rightarrow> [] | Some y \<Rightarrow> [y])"
  by (induction xs) (auto simp: List.map_filter_simps split: option.splits)

lemma log_of_snoc:
  "log_of (hs @ [h]) = log_of hs @ (case hook_err h of None \<Rightarrow> [] | Some msg \<Rightarrow> [''closer: '' @ msg])"
  by (simp add: log_of_def map_filter_snoc split: option.splits)

lemma closer_inv_New: "closer_inv closer_New"
  by (simp add: closer_inv_def closer_New_def ran_hooks_def log_of_def List.map_filter_simps)

lemma closer_inv_step:
  assumes "closer_step e c = Some c1" and "closer_inv c"
  shows "closer_inv c1"
proof (cases e)
  case (Add fs)
  then show ?thesis using assms by (auto simp: closer_inv_def ran_hooks_def)
next
  case CloseCall
  show ?thesis
  proof (cases "c_once c = Fresh")
    case True
    then have "c1 = c\<lparr>c_once := Running, run_funcs := funcs c, funcs := [],
                   ran := replicate (length (funcs c)) False, errs := [], i := 0\<rparr>"
      using assms(1) CloseCall by simp
    then show ?thesis using assms(2) True
      by (simp add: closer_inv_def ran_hooks_def ran_none log_of_def List.map_filter_simps)
  next
    case False
    then show ?thesis using assms CloseCall by simp
  qed
next
  case (RunHook j)
  then have j: "j < length (run_funcs c)" "j < length (ran c)" "\<not> ran c ! j"
    and c1: "c1 = c\<lparr>ran := (ran c)[j := True],
                   errs := errs c @ [hook_err (run_funcs c ! j)],
                   executed := executed c @ [run_funcs c ! j]\<rparr>"
    using assms(1) by (auto split: if_splits)
  have len: "length (ran c) = length (run_funcs c)" using assms(2) by (simp add: closer_inv_def)
  have "mset (ran_hooks c1) = add_mset (run_funcs c ! j) (mset (ran_hooks c))"
    using ran_update [OF j(1) len j(3)] c1 by (simp add: ran_hooks_def)
  moreover have "c_once c \<noteq> Fresh" using j(1) assms(2) by (auto simp: closer_inv_def)
  ultimately show ?thesis using assms(2) c1
    by (simp add: closer_inv_def)
next
  case RecvErr
  then obtain e0 rest where r: "c_once c = Running" "i c < length (run_funcs c)" "errs c = e0 # rest"
    and c1: "c1 = c\<lparr>errs := rest, i := i c + 1,
                   log_lines := (case e0 of None \<Rightarrow> log_lines c
                                 | Some msg \<Rightarrow> log_lines c @ [''closer: '' @ msg])\<rparr>"
    using assms(1) by (auto split: if_splits list.splits)
  have d: "map hook_err (drop (i c) (executed c)) = e0 # rest"
    using assms(2) r(3) by (simp add: closer_inv_def)
  then have lt: "i c < length (executed c)" by (cases "i c < length (executed c)") auto
  then have dr: "drop (i c) (executed c) = executed c ! i c # drop (Suc (i c)) (executed c)"
    by (simp add: Cons_nth_drop_Suc)
  then have e0: "e0 = hook_err (executed c ! i c)" and rest: "rest = map hook_err (drop (Suc (i c)) (executed c))"
    using d by auto
  have tk: "take (Suc (i c)) (executed c) = take (i c) (executed c) @ [executed c ! i c]"
    using lt by (simp add: take_Suc_conv_app_nth)
  have "log_lines c1 = log_of (take (Suc (i c)) (executed c))"
    using assms(2) c1 e0 tk by (simp add: closer_inv_def log_of_snoc split: option.splits)
  then show ?thesis using assms(2) c1 lt rest r(1)
    by (simp add: closer_inv_def ran_hooks_def)
next
  case Finish
  then show ?thesis using assms by (auto simp: closer_inv_def ran_hooks_def split: if_splits)
qed

lemma closer_inv_run: "closer_run es c = Some c1 \<Longrightarrow> closer_inv c \<Longrightarrow> closer_inv c1"
proof (induction es arbitrary: c)
  case Nil
  then show ?case by simp
next
  case (Cons e es)
  then obtain c2 where a: "closer_step e c = Some c2" and b: "closer_run es c2 = Some c1"
    by (auto split: option.splits)
  show ?case using Cons.IH [OF b closer_inv_step [OF a Cons.prems(2)]] .
qed

lemma ran_hooks_length: "length (ran_hooks c) \<le> length (run_funcs c)"
proof -
  have "length (filter snd (zip (run_funcs c) (ran c))) \<le> length (zip (run_funcs c) (ran c))"
    by (rule length_filter_le)
  then show ?thesis by (simp add: ran_hooks_def)
qed

lemma closer_run_append:
  "closer_run (es @ es1) c =
     (case closer_run es c of None \<Rightarrow> None | Some c1 \<Rightarrow> closer_run es1 c1)"
  by (induction es arbitrary: c) (auto split: option.splits)

lemma closer_run_Fresh:
  assumes "closer_run pre c = Some c0" and "CloseCall \<notin> set pre"
    and "c_once c = Fresh" and "run_funcs c = []"
  shows "c0 = c\<lparr>funcs := funcs c @ added pre\<rparr>"
  using assms
proof (induction pre arbitrary: c)
  case Nil
  then show ?case by simp
next
  case (Cons e es)
  show ?case
  proof (cases e)
    case (Add fs)
    then have r: "closer_run es (c\<lparr>funcs := funcs c @ fs\<rparr>) = Some c0" using Cons.prems(1) by simp
    have "c0 = (c\<lparr>funcs := funcs c @ fs\<rparr>)\<lparr>funcs := funcs (c\<lparr>funcs := funcs c @ fs\<rparr>) @ added es\<rparr>"
      using Cons.prems by (intro Cons.IH [OF r]) auto
    then show ?thesis using Add by simp
  next
    case CloseCall
    then show ?thesis using Cons.prems(2) by simp
  next
    case (RunHook j)
    then show ?thesis using Cons.prems by simp
  next
    case RecvErr
    then show ?thesis using Cons.prems by simp
  next
    case Finish
    then show ?thesis using Cons.prems by simp
  qed
qed

lemma closer_step_started:
  assumes "closer_step e c = Some c1" and "c_once c \<noteq> Fresh"
  shows "c_once c1 \<noteq> Fresh \<and> run_funcs c1 = run_funcs c"
  using assms by (cases e) (auto split: if_splits list.splits)

lemma closer_run_started:
  "closer_run es c = Some c1 \<Longrightarrow> c_once c \<noteq> Fresh \<Longrightarrow>
   c_once c1 \<noteq> Fresh \<and> run_funcs c1 = run_funcs c \<and>
   closer_run (removeAll CloseCall es) c = Some c1"
proof (induction es arbitrary: c)
  case Nil
  then show ?case by simp
next
  case (Cons e es)
  then obtain c2 where a: "closer_step e c = Some c2" and b: "closer_run es c2 = Some c1"
    by (auto split: option.splits)
  have s: "c_once c2 \<noteq> Fresh" "run_funcs c2 = run_funcs c"
    using closer_step_started [OF a Cons.prems(2)] by auto
  have ih: "c_once c1 \<noteq> Fresh \<and> run_funcs c1 = run_funcs c2 \<and>
      closer_run (removeAll CloseCall es) c2 = Some c1"
    using Cons.IH [OF b s(1)] .
  show ?case
  proof (cases "e = CloseCall")
    case True
    then have "c2 = c" using a Cons.prems(2) by simp
    then show ?thesis using ih True by simp
  next
    case False
    then show ?thesis using ih s a by simp
  qed
qed

lemma closer_after_Close:
  assumes "closer_run (pre @ CloseCall # post) closer_New = Some c" and "CloseCall \<notin> set pre"
  shows "closer_step CloseCall c = Some c \<and>
         closer_run (pre @ CloseCall # removeAll CloseCall post) closer_New = Some c \<and>
         run_funcs c = added pre \<and>
         mset (executed c) \<subseteq># mset (added pre) \<and>
         (c_done c \<longrightarrow> mset (executed c) = mset (added pre))"
proof -
  from assms(1) obtain c0 c1 where
    pre: "closer_run pre closer_New = Some c0" and
    cl: "closer_step CloseCall c0 = Some c1" and
    post: "closer_run post c1 = Some c"
    by (auto simp: closer_run_append split: option.splits)
  have c0: "c0 = closer_New\<lparr>funcs := funcs closer_New @ added pre\<rparr>"
    using closer_run_Fresh [OF pre assms(2)] by (simp add: closer_New_def)
  then have c1: "c_once c1 = Running" "run_funcs c1 = added pre"
    using cl by (auto simp: closer_New_def)
  then have st: "c_once c1 \<noteq> Fresh" by simp
  have after: "c_once c \<noteq> Fresh" "run_funcs c = run_funcs c1"
    "closer_run (removeAll CloseCall post) c1 = Some c"
    using closer_run_started [OF post st] by auto
  have inv: "closer_inv c" using closer_inv_run [OF assms(1) closer_inv_New] .
  have 1: "closer_step CloseCall c = Some c" using after(1) by simp
  have 2: "closer_run (pre @ CloseCall # removeAll CloseCall post) closer_New = Some c"
    using pre cl after(3) by (simp add: closer_run_append)
  have 3: "run_funcs c = added pre" using after(2) c1(2) by simp
  have 4: "mset (executed c) \<subseteq># mset (added pre)"
    using inv 3 ran_sub [of "run_funcs c" "ran c"] by (simp add: closer_inv_def ran_hooks_def)
  have 5: "mset (executed c) = mset (added pre)" if d: "c_done c"
  proof -
    have n: "i c = length (run_funcs c)" and le: "i c \<le> length (executed c)"
      and len: "length (ran c) = length (run_funcs c)"
      and ms: "mset (executed c) = mset (ran_hooks c)"
      using inv d by (auto simp: closer_inv_def)
    have "length (executed c) = length (ran_hooks c)" using ms by (metis size_mset)
    moreover have "length (ran_hooks c) \<le> length (run_funcs c)" by (rule ran_hooks_length)
    ultimately have "length (ran_hooks c) = length (run_funcs c)" using n le by simp
    then have "ran_hooks c = run_funcs c"
      using ran_all [OF len] by (simp add: ran_hooks_def)
    then show ?thesis using ms 3 by simp
  qed
  show ?thesis using 1 2 3 4 5 by blast
qed

lemma demo_closer_run:
  "closer_run ([Add [demo_hook_a, demo_hook_b]] @ CloseCall # tl demo_closing) closer_New = Some demo_closed"
  by code_simp

lemma closer_done_all:
  assumes "closer_inv c" and "c_done c"
  shows "list_all (\<lambda>b. b) (ran c) \<and> mset (executed c) = mset (run_funcs c) \<and> errs c = [] \<and>
         log_lines c = log_of (executed c)"
proof -
  have n: "i c = length (run_funcs c)" and le: "i c \<le> length (executed c)"
    and len: "length (ran c) = length (run_funcs c)"
    and ms: "mset (executed c) = mset (ran_hooks c)"
    and er: "errs c = map hook_err (drop (i c) (executed c))"
    and lg: "log_lines c = log_of (take (i c) (executed c))"
    using assms by (auto simp: closer_inv_def)
  have eq: "length (executed c) = length (ran_hooks c)" using ms by (metis size_mset)
  moreover have "length (ran_hooks c) \<le> length (run_funcs c)" by (rule ran_hooks_length)
  ultimately have l: "length (ran_hooks c) = length (run_funcs c)" using n le by simp
  then have "ran_hooks c = run_funcs c \<and> list_all (\<lambda>b. b) (ran c)"
    using ran_all [OF len] by (simp add: ran_hooks_def)
  moreover have "i c = length (executed c)" using l eq n by simp
  ultimately show ?thesis using ms er lg by simp
qed

lemma closer_done_stays:
  assumes "closer_step e c = Some c1" and "c_done c" and "closer_inv c"
  shows "c_done c1"
  using assms by (cases e) (auto simp: closer_inv_def split: if_splits list.splits)

lemma closer_enabled:
  assumes "closer_inv c" and "c_once c = Running"
  shows "\<exists>e c1. internal e \<and> closer_step e c = Some c1"
proof (cases "\<forall>j < length (ran c). ran c ! j")
  case False
  then obtain j where j: "j < length (ran c)" "\<not> ran c ! j" by blast
  have "length (ran c) = length (run_funcs c)" using assms(1) by (simp add: closer_inv_def)
  then have "closer_step (RunHook j) c \<noteq> None" using j by simp
  moreover have "internal (RunHook j)" by simp
  ultimately show ?thesis by blast
next
  case True
  have len: "length (ran c) = length (run_funcs c)"
    and ms: "mset (executed c) = mset (ran_hooks c)"
    and le: "i c \<le> length (executed c)"
    and er: "errs c = map hook_err (drop (i c) (executed c))"
    using assms(1) by (auto simp: closer_inv_def)
  have "length (ran_hooks c) = length (run_funcs c)"
    using all_ran [OF len True] by (simp add: ran_hooks_def)
  moreover have "length (executed c) = length (ran_hooks c)" using ms by (metis size_mset)
  ultimately have n: "length (executed c) = length (run_funcs c)" by simp
  show ?thesis
  proof (cases "i c < length (run_funcs c)")
    case True
    then have "errs c \<noteq> []" using er n by simp
    then have "closer_step RecvErr c \<noteq> None"
      using assms(2) True by (cases "errs c") auto
    moreover have "internal RecvErr" by simp
    ultimately show ?thesis by blast
  next
    case False
    then have "i c = length (run_funcs c)" using le n by simp
    then have "closer_step Finish c \<noteq> None" using assms(2) by simp
    moreover have "internal Finish" by simp
    ultimately show ?thesis by blast
  qed
qed

lemma closer_todo_step:
  assumes "closer_step e c = Some c1" and "internal e"
  shows "closer_todo c1 < closer_todo c"
proof (cases e)
  case (RunHook j)
  then have j: "j < length (ran c)" "\<not> ran c ! j"
    and c1: "c1 = c\<lparr>ran := (ran c)[j := True],
                   errs := errs c @ [hook_err (run_funcs c ! j)],
                   executed := executed c @ [run_funcs c ! j]\<rparr>"
    using assms(1) by (auto split: if_splits)
  show ?thesis using not_ran_update [OF j] c1 by (simp add: closer_todo_def)
next
  case RecvErr
  then show ?thesis using assms(1)
    by (auto simp: closer_todo_def split: if_splits list.splits)
next
  case Finish
  then show ?thesis using assms(1) by (auto simp: closer_todo_def split: if_splits)
qed (use assms(2) in simp_all)

lemma closer_step_once:
  assumes "closer_step e c = Some c1" and "internal e" and "c_once c = Running"
  shows "c_once c1 = Running \<or> c_done c1"
  using assms by (cases e) (auto split: if_splits list.splits)

lemma closer_completes:
  "closer_inv c \<Longrightarrow> c_once c = Running \<Longrightarrow>
   \<exists>es c1. list_all internal es \<and> closer_run es c = Some c1 \<and> c_done c1"
proof (induction "closer_todo c" arbitrary: c rule: less_induct)
  case less
  from closer_enabled [OF less.prems] obtain e c1 where
    e: "internal e" "closer_step e c = Some c1" by blast
  have inv1: "closer_inv c1" using closer_inv_step [OF e(2) less.prems(1)] .
  show ?case
  proof (cases "c_done c1")
    case True
    then have "list_all internal [e] \<and> closer_run [e] c = Some c1 \<and> c_done c1"
      using e by simp
    then show ?thesis by blast
  next
    case False
    then have "c_once c1 = Running" using closer_step_once [OF e(2) e(1) less.prems(2)] by simp
    from less.hyps [OF closer_todo_step [OF e(2) e(1)] inv1 this] obtain es c2 where
      r: "list_all internal es" "closer_run es c1 = Some c2" "c_done c2" by blast
    have "list_all internal (e # es) \<and> closer_run (e # es) c = Some c2 \<and> c_done c2"
      using e r by simp
    then show ?thesis by blast
  qed
qed

text \<open>
  Claim C8. Take any sequence of steps in which \<^verbatim>\<open>Close\<close> is called, \<open>pre\<close> being the
  steps before the first call. A further call of \<^verbatim>\<open>Close\<close> changes nothing, and the
  state reached is the one reached when every call but the first is left out. The hooks
  the run calls are those handed to \<^verbatim>\<open>Add\<close> before the first call; none is called
  more often than it was added; once \<^verbatim>\<open>c.done\<close> is closed each has been called
  exactly as often as it was added, that is once for a hook added once; and the run can
  always be brought to that end.
\<close>

theorem Close_runs_hooks_once:
  assumes "closer_run (pre @ CloseCall # post) closer_New = Some c" and "CloseCall \<notin> set pre"
  shows "closer_step CloseCall c = Some c \<and>
         closer_run (pre @ CloseCall # removeAll CloseCall post) closer_New = Some c \<and>
         run_funcs c = added pre \<and>
         mset (executed c) \<subseteq># mset (added pre) \<and>
         (c_done c \<longrightarrow> mset (executed c) = mset (added pre)) \<and>
         (\<exists>es1 c1. list_all internal es1 \<and> closer_run es1 c = Some c1 \<and> c_done c1 \<and>
                   mset (executed c1) = mset (added pre))"
proof -
  note core = closer_after_Close [OF assms]
  have inv: "closer_inv c" using closer_inv_run [OF assms(1) closer_inv_New] .
  have "\<exists>es1 c1. list_all internal es1 \<and> closer_run es1 c = Some c1 \<and> c_done c1 \<and>
                 mset (executed c1) = mset (added pre)"
  proof (cases "c_done c")
    case True
    then have "list_all internal [] \<and> closer_run [] c = Some c \<and> c_done c \<and>
        mset (executed c) = mset (added pre)"
      using core by simp
    then show ?thesis by blast
  next
    case False
    have "c_once c \<noteq> Fresh"
    proof
      assume f: "c_once c = Fresh"
      from core have "closer_step CloseCall c = Some c" by blast
      then have "c_once (c\<lparr>c_once := Running, run_funcs := funcs c, funcs := [],
          ran := replicate (length (funcs c)) False, errs := [], i := 0\<rparr>) = c_once c"
        using f by simp
      then show False using f by simp
    qed
    then have "c_once c = Running"
      using False inv by (cases "c_once c") (auto simp: closer_inv_def)
    from closer_completes [OF inv this] obtain es1 c1 where
      r: "list_all internal es1" "closer_run es1 c = Some c1" "c_done c1" by blast
    have "closer_run (pre @ CloseCall # (post @ es1)) closer_New = Some c1"
      using assms(1) r(2) closer_run_append [of "pre @ CloseCall # post" es1 closer_New] by simp
    from closer_after_Close [OF this assms(2)] r(3)
    have "mset (executed c1) = mset (added pre)" by blast
    then show ?thesis using r by blast
  qed
  then show ?thesis using core by blast
qed

theorem Close_runs_hooks_once_witness:
  "closer_run ([Add [demo_hook_a, demo_hook_b]] @ CloseCall # tl demo_closing) closer_New = Some demo_closed \<and>
   CloseCall \<notin> set [Add [demo_hook_a, demo_hook_b]] \<and> c_done demo_closed \<and>
   closer_step CloseCall demo_closed = Some demo_closed \<and>
   mset (executed demo_closed) = mset [demo_hook_a, demo_hook_b]"
proof -
  have n: "CloseCall \<notin> set [Add [demo_hook_a, demo_hook_b]]" by simp
  have d: "c_done demo_closed" by (simp add: demo_closed_def)
  show ?thesis
    using Close_runs_hooks_once [OF demo_closer_run n] demo_closer_run n d by simp
qed

text \<open>
  Claim C9. In every state a run of the coordinator reaches: \<^verbatim>\<open>Wait\<close> returns exactly
  when \<^verbatim>\<open>c.done\<close> is closed; by then every goroutine the first \<^verbatim>\<open>Close\<close> started
  has run its hook, the hooks called are the hooks taken, the channel is empty and the
  log holds one line for each hook that returned an error, in the order the hooks were
  called; the channel stays closed, so \<^verbatim>\<open>Wait\<close> returns at once from then on.
  While the run is under way a step of it can always be taken (a hook that returns an
  error blocks nothing), the steps left can be taken up to the closing of \<^verbatim>\<open>c.done\<close>,
  and every step of the run brings that end nearer.
\<close>

theorem Wait_after_all_hooks:
  assumes "closer_run es closer_New = Some c"
  shows "(Wait c = Some () \<longleftrightarrow> c_done c) \<and>
         (c_done c \<longrightarrow>
            list_all (\<lambda>b. b) (ran c) \<and> mset (executed c) = mset (run_funcs c) \<and>
            errs c = [] \<and> log_lines c = log_of (executed c)) \<and>
         (\<forall>e c1. c_done c \<longrightarrow> closer_step e c = Some c1 \<longrightarrow> c_done c1 \<and> Wait c1 = Some ()) \<and>
         (c_once c = Running \<longrightarrow>
            (\<exists>e c1. internal e \<and> closer_step e c = Some c1) \<and>
            (\<exists>es1 c1. list_all internal es1 \<and> closer_run es1 c = Some c1 \<and> Wait c1 = Some ())) \<and>
         (\<forall>e c1. internal e \<longrightarrow> closer_step e c = Some c1 \<longrightarrow> closer_todo c1 < closer_todo c)"
proof -
  have inv: "closer_inv c" using closer_inv_run [OF assms closer_inv_New] .
  have 1: "Wait c = Some () \<longleftrightarrow> c_done c" by (simp add: Wait_def)
  have 2: "c_done c \<longrightarrow>
            list_all (\<lambda>b. b) (ran c) \<and> mset (executed c) = mset (run_funcs c) \<and>
            errs c = [] \<and> log_lines c = log_of (executed c)"
    using closer_done_all [OF inv] by blast
  have 3: "\<forall>e c1. c_done c \<longrightarrow> closer_step e c = Some c1 \<longrightarrow> c_done c1 \<and> Wait c1 = Some ()"
    using closer_done_stays [OF _ _ inv] by (auto simp: Wait_def)
  have 4: "c_once c = Running \<longrightarrow>
            (\<exists>e c1. internal e \<and> closer_step e c = Some c1) \<and>
            (\<exists>es1 c1. list_all internal es1 \<and> closer_run es1 c = Some c1 \<and> Wait c1 = Some ())"
    using closer_enabled [OF inv] closer_completes [OF inv] by (auto simp: Wait_def)
  have 5: "\<forall>e c1. internal e \<longrightarrow> closer_step e c = Some c1 \<longrightarrow> closer_todo c1 < closer_todo c"
    using closer_todo_step by blast
  show ?thesis using 1 2 3 4 5 by blast
qed

lemma demo_closer_run2:
  "closer_run (Add [demo_hook_a, demo_hook_b] # demo_closing) closer_New = Some demo_closed"
  by code_simp

theorem Wait_after_all_hooks_witness:
  "closer_run (Add [demo_hook_a, demo_hook_b] # demo_closing) closer_New = Some demo_closed \<and>
   Wait demo_closed = Some () \<and> list_all (\<lambda>b. b) (ran demo_closed) \<and>
   log_lines demo_closed = [''closer: http: shutting down: context deadline exceeded'']"
proof -
  have d: "c_done demo_closed" by (simp add: demo_closed_def)
  have l: "log_of (executed demo_closed) = [''closer: http: shutting down: context deadline exceeded'']"
    by code_simp
  show ?thesis
    using Wait_after_all_hooks [OF demo_closer_run2] demo_closer_run2 d l by simp
qed

section \<open>Properties of the fetch dispatcher\<close>

subsection \<open>Steps, their bound, and the end of every call\<close>

lemma sum_list_map_update:
  "k < length xs \<Longrightarrow> sum_list (map f (xs[k := x])) + f (xs ! k) = sum_list (map f xs) + (f x :: nat)"
proof (induction xs arbitrary: k)
  case Nil
  then show ?case by simp
next
  case (Cons y ys)
  show ?case
  proof (cases k)
    case 0
    then show ?thesis by simp
  next
    case (Suc j)
    then have "j < length ys" using Cons.prems by simp
    from Cons.IH [OF this] show ?thesis using Suc by simp
  qed
qed

lemma act_cases [consumes 1, case_names Cancel Done Closed Task Early Request End Recv Handle Close Return]:
  assumes "act w ev s = Some s1"
  obtains
    (Cancel) e where "ev = CallerCancel e" "ctx_parent s = None"
      "s1 = s\<lparr>ctx_parent := Some e, ctx := (case ctx s of None \<Rightarrow> Some e | Some e1 \<Rightarrow> Some e1)\<rparr>"
  | (Done) k where "ev = SelectDone k" "k < length (workers s)" "workers s ! k = Selecting"
      "ctx s \<noteq> None" "s1 = s\<lparr>workers := (workers s)[k := Exited]\<rparr>"
  | (Closed) k where "ev = SelectTask k" "k < length (workers s)" "workers s ! k = Selecting"
      "tasks s = []" "s1 = s\<lparr>workers := (workers s)[k := Exited]\<rparr>"
  | (Task) k u rest where "ev = SelectTask k" "k < length (workers s)" "workers s ! k = Selecting"
      "tasks s = u # rest" "s1 = s\<lparr>workers := (workers s)[k := Crawling u], tasks := rest\<rparr>"
  | (Early) k u res where "ev = BeginCrawl k" "k < length (workers s)" "workers s ! k = Crawling u"
      "crawl_begin w (ctx s) u = Some res"
      "s1 = s\<lparr>workers := (workers s)[k := Sending res], produced := produced s @ [res]\<rparr>"
  | (Request) k u where "ev = BeginCrawl k" "k < length (workers s)" "workers s ! k = Crawling u"
      "crawl_begin w (ctx s) u = None" "s1 = s\<lparr>workers := (workers s)[k := Requesting u]\<rparr>"
  | (End) k how u answer where "ev = EndCrawl k how" "k < length (workers s)"
      "workers s ! k = Requesting u" "answer_of w u how (ctx s) = Some answer"
      "s1 = s\<lparr>workers := (workers s)[k := Sending (crawl_end w u answer)],
               produced := produced s @ [crawl_end w u answer]\<rparr>"
  | (Recv) k res where "ev = RecvResult k" "k < length (workers s)" "workers s ! k = Sending res"
      "handling s = None" "s1 = s\<lparr>workers := (workers s)[k := Selecting], handling := Some res\<rparr>"
  | (Handle) res where "ev = HandleResult" "handling s = Some res"
      "s1 = (handle_result res s)\<lparr>handling := None, observed := observed s @ [res]\<rparr>"
  | (Close) "ev = CloseResults" "\<not> results_closed s" "list_all (\<lambda>wk. wk = Exited) (workers s)"
      "s1 = s\<lparr>results_closed := True\<rparr>"
  | (Return) "ev = Return" "results_closed s" "handling s = None"
      "s1 = s\<lparr>returned := Some (return_value s), ctx := cancel (ctx s)\<rparr>"
proof (cases ev)
  case (CallerCancel e)
  then show ?thesis using assms that(1) by (auto split: if_splits)
next
  case (SelectDone k)
  then show ?thesis using assms that(2)
    by (auto simp: worker_at_def set_worker_def split: if_splits worker.splits)
next
  case (SelectTask k)
  then show ?thesis using assms that(3) that(4)
    by (auto simp: worker_at_def set_worker_def split: if_splits worker.splits list.splits)
next
  case (BeginCrawl k)
  then show ?thesis using assms that(5) that(6)
    by (auto simp: worker_at_def set_worker_def send_def split: if_splits worker.splits option.splits)
next
  case (EndCrawl k how)
  then show ?thesis using assms that(7)
    by (auto simp: worker_at_def set_worker_def send_def split: if_splits worker.splits option.splits)
next
  case (RecvResult k)
  then show ?thesis using assms that(8)
    by (auto simp: worker_at_def set_worker_def split: if_splits worker.splits)
next
  case HandleResult
  then show ?thesis using assms that(9) by (auto split: option.splits)
next
  case CloseResults
  then show ?thesis using assms that(10) by (auto split: if_splits)
next
  case Return
  then show ?thesis using assms that(11) by (auto split: if_splits)
qed


lemma handle_result_fields [simp]:
  "tasks (handle_result res s) = tasks s" "workers (handle_result res s) = workers s"
  "results_closed (handle_result res s) = results_closed s" "handling (handle_result res s) = handling s"
  "returned (handle_result res s) = returned s" "produced (handle_result res s) = produced s"
  "observed (handle_result res s) = observed s" "ctx_parent (handle_result res s) = ctx_parent s"
  by (simp_all add: handle_result_def split: option.splits)

lemma act_workers: "act w ev s = Some s1 \<Longrightarrow> length (workers s1) = length (workers s)"
  by (induction rule: act_cases) simp_all

lemma step_workers: "step w ev s = Some s1 \<Longrightarrow> length (workers s1) = length (workers s)"
  by (auto simp: step_def act_workers split: if_splits)

lemma run_workers: "run w evs s = Some s1 \<Longrightarrow> length (workers s1) = length (workers s)"
proof (induction evs arbitrary: s)
  case Nil
  then show ?case by simp
next
  case (Cons ev evs)
  then show ?case by (auto split: option.splits dest: step_workers)
qed

lemma todo_workers:
  "k < length (workers s) \<Longrightarrow>
   todo (s\<lparr>workers := (workers s)[k := wk]\<rparr>) + weight (workers s ! k) = todo s + weight wk"
  using sum_list_map_update [of k "workers s" weight wk]
  by (simp add: todo_def)

lemma todo_frame [simp]:
  "todo (s\<lparr>produced := p\<rparr>) = todo s" "todo (s\<lparr>observed := ob\<rparr>) = todo s"
  "todo (s\<lparr>ctx := c\<rparr>) = todo s" "todo (s\<lparr>exitErr := x\<rparr>) = todo s" "todo (s\<lparr>out := ou\<rparr>) = todo s"
  by (simp_all add: todo_def)

lemma todo_handle_result [simp]: "todo (handle_result res s) = todo s"
  by (simp add: handle_result_def split: option.splits)

lemma act_todo:
  assumes "act w ev s = Some s1" and "returned s = None"
  shows "todo s1 < todo s"
  using assms(1)
proof (cases rule: act_cases)
  case (Cancel e)
  then show ?thesis by (simp add: todo_def)
next
  case (Done k)
  then show ?thesis using todo_workers [of k s Exited] by simp
next
  case (Closed k)
  then show ?thesis using todo_workers [of k s Exited] by simp
next
  case (Task k u rest)
  have "todo (s\<lparr>workers := (workers s)[k := Crawling u], tasks := rest\<rparr>) + 6 =
        todo (s\<lparr>workers := (workers s)[k := Crawling u]\<rparr>)"
    using Task(4) by (simp add: todo_def)
  then show ?thesis using Task todo_workers [of k s "Crawling u"] by simp
next
  case (Early k u res)
  then show ?thesis using todo_workers [of k s "Sending res"] by simp
next
  case (Request k u)
  then show ?thesis using todo_workers [of k s "Requesting u"] by simp
next
  case (End k how u answer)
  then show ?thesis using todo_workers [of k s "Sending (crawl_end w u answer)"] by simp
next
  case (Recv k res)
  have "todo (s\<lparr>workers := (workers s)[k := Selecting], handling := Some res\<rparr>) =
        todo (s\<lparr>workers := (workers s)[k := Selecting]\<rparr>) + 2"
    using Recv(4) by (simp add: todo_def)
  then show ?thesis using Recv todo_workers [of k s Selecting] by simp
next
  case (Handle res)
  have "todo (handle_result res s) = todo ((handle_result res s)\<lparr>handling := None\<rparr>) + 2"
    using Handle(2) by (simp add: todo_def handle_result_def split: option.splits)
  then show ?thesis using Handle by simp
next
  case Close
  then show ?thesis by (simp add: todo_def)
next
  case Return
  then show ?thesis using assms(2) by (simp add: todo_def)
qed

lemma step_todo: "step w ev s = Some s1 \<Longrightarrow> todo s1 < todo s"
  by (cases "returned s") (auto simp: step_def intro: act_todo)

lemma run_bounded: "run w evs s = Some s1 \<Longrightarrow> length evs + todo s1 \<le> todo s"
proof (induction evs arbitrary: s)
  case Nil
  then show ?case by simp
next
  case (Cons ev evs)
  then obtain s2 where a: "step w ev s = Some s2" and b: "run w evs s2 = Some s1"
    by (auto split: option.splits)
  from Cons.IH [OF b] step_todo [OF a] show ?case by simp
qed

lemma step_enabledI: "quiet ev \<Longrightarrow> step w ev s \<noteq> None \<Longrightarrow> \<exists>ev s1. quiet ev \<and> step w ev s = Some s1"
  by blast

lemma step_enabled:
  assumes "returned s = None"
  shows "\<exists>ev s1. quiet ev \<and> step w ev s = Some s1"
proof (cases "list_all (\<lambda>wk. wk = Exited) (workers s)")
  case True
  show ?thesis
  proof (cases "handling s")
    case (Some res)
    then have "step w HandleResult s \<noteq> None" using assms by (simp add: step_def)
    then show ?thesis by (intro step_enabledI) simp_all
  next
    case None
    show ?thesis
    proof (cases "results_closed s")
      case True
      then have "step w Return s \<noteq> None" using assms None by (simp add: step_def)
      then show ?thesis by (intro step_enabledI) simp_all
    next
      case False
      then have "step w CloseResults s \<noteq> None"
        using assms \<open>list_all (\<lambda>wk. wk = Exited) (workers s)\<close> by (simp add: step_def)
      then show ?thesis by (intro step_enabledI) simp_all
    qed
  qed
next
  case False
  then obtain k where k: "k < length (workers s)" "workers s ! k \<noteq> Exited"
    by (auto simp: list_all_length)
  show ?thesis
  proof (cases "workers s ! k")
    case Selecting
    then have "step w (SelectTask k) s \<noteq> None"
      using assms k by (simp add: step_def worker_at_def split: list.splits)
    then show ?thesis by (intro step_enabledI) simp_all
  next
    case (Crawling u)
    then have "step w (BeginCrawl k) s \<noteq> None"
      using assms k by (simp add: step_def worker_at_def split: option.splits)
    then show ?thesis by (intro step_enabledI) simp_all
  next
    case (Requesting u)
    then have "step w (EndCrawl k Completed) s \<noteq> None"
      using assms k by (simp add: step_def worker_at_def answer_of_def)
    then show ?thesis by (intro step_enabledI) simp_all
  next
    case (Sending res)
    show ?thesis
    proof (cases "handling s")
      case None
      then have "step w (RecvResult k) s \<noteq> None"
        using assms k Sending by (simp add: step_def worker_at_def)
      then show ?thesis by (intro step_enabledI) simp_all
    next
      case (Some r)
      then have "step w HandleResult s \<noteq> None" using assms by (simp add: step_def)
      then show ?thesis by (intro step_enabledI) simp_all
    qed
  next
    case Exited
    then show ?thesis using k by simp
  qed
qed

lemma can_return:
  "\<exists>evs s1. list_all quiet evs \<and> run w evs s = Some s1 \<and> returned s1 \<noteq> None"
proof (induction "todo s" arbitrary: s rule: less_induct)
  case less
  show ?case
  proof (cases "returned s")
    case (Some rv)
    then have "list_all quiet [] \<and> run w [] s = Some s \<and> returned s \<noteq> None" by simp
    then show ?thesis by blast
  next
    case None
    from step_enabled [OF None, of w] obtain ev s1 where
      ev: "quiet ev" "step w ev s = Some s1" by blast
    from less [OF step_todo [OF ev(2)]] obtain evs s2 where
      r: "list_all quiet evs" "run w evs s1 = Some s2" "returned s2 \<noteq> None" by blast
    have "list_all quiet (ev # evs) \<and> run w (ev # evs) s = Some s2 \<and> returned s2 \<noteq> None"
      using ev r by simp
    then show ?thesis by blast
  qed
qed

lemma set_update_other:
  assumes "x \<in> set xs" and "x \<noteq> xs ! k"
  shows "x \<in> set (xs[k := y])"
proof -
  from assms(1) obtain j where j: "j < length xs" "xs ! j = x"
    by (auto simp: in_set_conv_nth)
  then have "j \<noteq> k" using assms(2) by auto
  then have "xs[k := y] ! j = x" using j by simp
  moreover have "j < length (xs[k := y])" using j by simp
  ultimately show ?thesis using nth_mem by blast
qed

lemma list_all_update: "list_all P xs \<Longrightarrow> P y \<Longrightarrow> list_all P (xs[k := y])"
  using set_update_subset_insert [of xs k y] by (auto simp: list_all_iff)

lemma first_error_append:
  "first_error (xs @ [res]) =
     (case first_error xs of
        Some e \<Rightarrow> Some e
      | None \<Rightarrow> (case err res of Some e \<Rightarrow> Some (FailedToCrawl (SourceURL res) e) | None \<Rightarrow> None))"
  by (induction xs) (auto split: option.splits)

lemma first_error_None: "first_error xs = None \<longleftrightarrow> (\<forall>res \<in> set xs. err res = None)"
  by (induction xs) (auto split: option.splits)

lemma first_error_find:
  "first_error xs =
     (case find (\<lambda>res. err res \<noteq> None) xs of
        None \<Rightarrow> None
      | Some res \<Rightarrow> Some (FailedToCrawl (SourceURL res) (the (err res))))"
  by (induction xs) (auto split: option.splits)


lemma loop_inv_handle:
  assumes "loop_inv s"
  shows "loop_inv ((handle_result res s)\<lparr>handling := None, observed := observed s @ [res]\<rparr>)"
proof (cases "first_error (observed s)")
  case None
  then have all: "\<forall>r \<in> set (observed s). err r = None" by (simp add: first_error_None)
  then have "takeWhile (\<lambda>r. err r = None) (observed s @ [res]) =
      observed s @ (if err res = None then [res] else [])"
    by (simp add: takeWhile_append2)
  moreover have "takeWhile (\<lambda>r. err r = None) (observed s) = observed s"
    using all by (simp add: takeWhile_eq_all_conv)
  ultimately show ?thesis using assms None
    by (auto simp: loop_inv_def handle_result_def first_error_append split: option.splits)
next
  case (Some e)
  then have "\<not> (\<forall>r \<in> set (observed s). err r = None)"
    using first_error_None [of "observed s"] by simp
  then obtain r where "r \<in> set (observed s)" "err r \<noteq> None" by blast
  then have "takeWhile (\<lambda>r. err r = None) (observed s @ [res]) =
      takeWhile (\<lambda>r. err r = None) (observed s)"
    by (simp add: takeWhile_append1)
  then show ?thesis using assms Some
    by (auto simp: loop_inv_def handle_result_def first_error_append)
qed

lemma loop_inv_act:
  assumes "act w ev s = Some s1" and "loop_inv s"
  shows "loop_inv s1"
  using assms(1)
proof (cases rule: act_cases)
  case (Handle res)
  then show ?thesis using loop_inv_handle [OF assms(2)] by simp
qed (use assms(2) in \<open>simp_all add: loop_inv_def\<close>)

lemma final_inv_act:
  assumes "act w ev s = Some s1" and "final_inv s" and "returned s = None"
  shows "final_inv s1"
  using assms
proof (cases rule: act_cases)
  case (Handle res)
  then show ?thesis using assms(2,3) by (simp add: final_inv_def)
next
  case Return
  have "return_value (s\<lparr>returned := r, ctx := c\<rparr>) = return_value s" for r c
    by (simp add: return_value_def split: option.splits)
  then show ?thesis using Return assms(2,3) by (simp add: final_inv_def)
next
  case Close
  then show ?thesis using assms(2,3) by (simp add: final_inv_def)
next
  case (Cancel e)
  then show ?thesis using assms(2,3) by (simp add: final_inv_def)
next
  case (Done k)
  then have "\<not> list_all (\<lambda>wk. wk = Exited) (workers s)" by (auto simp: list_all_length)
  then show ?thesis using Done assms(2,3) by (simp add: final_inv_def)
next
  case (Closed k)
  then have "\<not> list_all (\<lambda>wk. wk = Exited) (workers s)" by (auto simp: list_all_length)
  then show ?thesis using Closed assms(2,3) by (simp add: final_inv_def)
next
  case (Task k u rest)
  then have "\<not> list_all (\<lambda>wk. wk = Exited) (workers s)" by (auto simp: list_all_length)
  then show ?thesis using Task assms(2,3) by (simp add: final_inv_def)
next
  case (Early k u res)
  then have "\<not> list_all (\<lambda>wk. wk = Exited) (workers s)" by (auto simp: list_all_length)
  then show ?thesis using Early assms(2,3) by (simp add: final_inv_def)
next
  case (Request k u)
  then have "\<not> list_all (\<lambda>wk. wk = Exited) (workers s)" by (auto simp: list_all_length)
  then show ?thesis using Request assms(2,3) by (simp add: final_inv_def)
next
  case (End k how u answer)
  then have "\<not> list_all (\<lambda>wk. wk = Exited) (workers s)" by (auto simp: list_all_length)
  then show ?thesis using End assms(2,3) by (simp add: final_inv_def)
next
  case (Recv k res)
  then have "\<not> list_all (\<lambda>wk. wk = Exited) (workers s)" by (auto simp: list_all_length)
  then show ?thesis using Recv assms(2,3) by (simp add: final_inv_def)
qed


lemma flow_inv_act:
  assumes "act w ev s = Some s1" and "flow_inv s"
  shows "flow_inv s1"
  using assms(1)
proof (cases rule: act_cases)
  case (Cancel e)
  then show ?thesis using assms(2) by (simp add: flow_inv_def)
next
  case (Done k)
  then show ?thesis using assms(2) by (auto simp: flow_inv_def intro: set_update_other)
next
  case (Closed k)
  then show ?thesis using assms(2) by (auto simp: flow_inv_def intro: set_update_other)
next
  case (Task k u rest)
  then show ?thesis using assms(2) by (auto simp: flow_inv_def intro: set_update_other)
next
  case (Early k u res)
  have "Sending res \<in> set ((workers s)[k := Sending res])"
    using Early(2) by (simp add: set_update_memI)
  then show ?thesis using Early assms(2) by (auto simp: flow_inv_def intro: set_update_other)
next
  case (Request k u)
  then show ?thesis using assms(2) by (auto simp: flow_inv_def intro: set_update_other)
next
  case (End k how u answer)
  have "Sending (crawl_end w u answer) \<in> set ((workers s)[k := Sending (crawl_end w u answer)])"
    using End(2) by (simp add: set_update_memI)
  then show ?thesis using End assms(2) by (auto simp: flow_inv_def intro: set_update_other)
next
  case (Recv k res)
  have "Sending r \<in> set (workers s) \<Longrightarrow> r \<noteq> res \<Longrightarrow> Sending r \<in> set ((workers s)[k := Selecting])" for r
    using Recv(3) by (simp add: set_update_other)
  then show ?thesis using Recv assms(2) by (auto simp: flow_inv_def)
next
  case (Handle res)
  then show ?thesis using assms(2) by (auto simp: flow_inv_def)
next
  case Close
  then show ?thesis using assms(2) by (simp add: flow_inv_def)
next
  case Return
  then show ?thesis using assms(2) by (simp add: flow_inv_def)
qed

lemma run_inv_step: "step w ev s = Some s1 \<Longrightarrow> run_inv s \<Longrightarrow> run_inv s1"
  by (cases "returned s")
     (auto simp: step_def run_inv_def intro: loop_inv_act flow_inv_act final_inv_act)

lemma run_inv_run: "run w evs s = Some s1 \<Longrightarrow> run_inv s \<Longrightarrow> run_inv s1"
proof (induction evs arbitrary: s)
  case Nil
  then show ?case by simp
next
  case (Cons ev evs)
  then obtain s2 where a: "step w ev s = Some s2" and b: "run w evs s2 = Some s1"
    by (auto split: option.splits)
  show ?case using Cons.IH [OF b run_inv_step [OF a Cons.prems(2)]] .
qed

lemma validate_find:
  "validate w urls acc =
     (case find (invalid_url w) urls of
        Some u \<Rightarrow> (Some (InvalidURL u), acc @ takeWhile (\<lambda>u. \<not> invalid_url w u) urls)
      | None \<Rightarrow> (None, acc @ urls))"
  by (induction urls arbitrary: acc) (auto split: option.splits)

lemma Crawl_start_cases:
  "Crawl_start cfg w cx urls =
     (case cx of
        Some e \<Rightarrow> Inl (None, Some e)
      | None \<Rightarrow>
          if urls = [] then Inl (None, None)
          else (case find (invalid_url w) urls of
                  Some u \<Rightarrow> Inl (None, Some (InvalidURL u))
                | None \<Rightarrow>
                    Inr \<lparr>ctx_parent = None, ctx = None, tasks = urls,
                         workers = replicate (min (unat (MaxConnections cfg)) (length urls)) Selecting,
                         results_closed = False, handling = None, exitErr = None, out = [],
                         returned = None, produced = [], observed = []\<rparr>))"
  by (auto simp: Crawl_start_def validate_find Let_def min_def split: option.splits)

lemma Crawl_start_Inr:
  assumes "Crawl_start cfg w cx urls = Inr s0"
  shows "s0 = \<lparr>ctx_parent = None, ctx = None, tasks = urls,
               workers = replicate (min (unat (MaxConnections cfg)) (length urls)) Selecting,
               results_closed = False, handling = None, exitErr = None, out = [],
               returned = None, produced = [], observed = []\<rparr>"
    and "cx = None" and "urls \<noteq> []" and "find (invalid_url w) urls = None"
  using assms by (auto simp: Crawl_start_cases split: option.splits if_splits)

lemma run_inv_start: "Crawl_start cfg w cx urls = Inr s0 \<Longrightarrow> run_inv s0"
  by (drule Crawl_start_Inr(1))
     (simp add: run_inv_def loop_inv_def flow_inv_def final_inv_def)

lemma returned_first_error:
  assumes "run_inv s" and "returned s = Some rv" and "res \<in> set (produced s)" and "err res \<noteq> None"
  shows "\<exists>r e. find (\<lambda>r. err r \<noteq> None) (observed s) = Some r \<and> err r = Some e \<and>
               rv = (None, Some (FailedToCrawl (SourceURL r) e))"
proof -
  from assms(1,2) have closed: "list_all (\<lambda>wk. wk = Exited) (workers s)"
    and h: "handling s = None" and rv: "rv = return_value s"
    by (auto simp: run_inv_def final_inv_def)
  have "Sending res \<notin> set (workers s)" using closed by (auto simp: list_all_iff)
  then have "res \<in> set (observed s)"
    using assms(1,3) h by (auto simp: run_inv_def flow_inv_def)
  then have "find (\<lambda>r. err r \<noteq> None) (observed s) \<noteq> None"
    using assms(4) by (auto simp: find_None_iff)
  then obtain r where r: "find (\<lambda>r. err r \<noteq> None) (observed s) = Some r" by auto
  then have "err r \<noteq> None" by (auto simp: find_Some_iff)
  then obtain e where e: "err r = Some e" by auto
  have "exitErr s = Some (FailedToCrawl (SourceURL r) e)"
    using assms(1) r e by (simp add: run_inv_def loop_inv_def first_error_find)
  then show ?thesis using r e rv by (simp add: return_value_def)
qed

subsection \<open>The call before the workers start\<close>

text \<open>
  Claim C7. On the empty list, under a context that is not done, \<^verbatim>\<open>Crawl\<close> returns
  before the workers are started: no worker is started, the result is nil, which is a
  slice of length 0, and the error is nil, whatever the schedule.
\<close>

theorem Crawl_empty:
  "Crawl_start cfg w None [] = Inl (None, None) \<and>
   started (Crawl_start cfg w None []) = 0 \<and>
   Crawl cfg w None [] evs = Some (None, None) \<and>
   len (None :: Result slice) = 0"
  by (simp add: Crawl_start_def Crawl_def started_def len_def)

theorem Crawl_empty_witness:
  "Crawl defaultConfig demo_world None [] [] = Some (None, None)"
  using Crawl_empty [of defaultConfig demo_world "[]"] by simp

text \<open>
  Claim C2, as the code has it. \<^verbatim>\<open>Crawl\<close> checks every URL before it starts a
  worker. On a list that holds a URL failing the check, under a context that is not
  done, the call returns nil and \<^verbatim>\<open>invalid url\<close> for the first such URL of the list,
  with no worker started and no task run, whatever the schedule.
\<close>

theorem Crawl_invalid_url:
  assumes "u \<in> set urls" and "invalid_url w u"
  shows "\<exists>v. find (invalid_url w) urls = Some v \<and>
             Crawl_start cfg w None urls = Inl (None, Some (InvalidURL v)) \<and>
             started (Crawl_start cfg w None urls) = 0 \<and>
             Crawl cfg w None urls evs = Some (None, Some (InvalidURL v))"
proof -
  from assms obtain v where v: "find (invalid_url w) urls = Some v"
    by (cases "find (invalid_url w) urls") (auto simp: find_None_iff)
  have ne: "urls \<noteq> []" using assms(1) by auto
  have "Crawl_start cfg w None urls = Inl (None, Some (InvalidURL v))"
    using v ne by (simp add: Crawl_start_cases)
  then show ?thesis using v by (simp add: started_def Crawl_def)
qed

text \<open>
  The claim as the specification words it (the malformed URL fails as a task of its
  own, in the making of the request) fails on the list \<^verbatim>\<open>http://a\<close>, \<^verbatim>\<open>not a url\<close>:
  the call returns \<^verbatim>\<open>invalid url\<close> with no worker started, although the making of the
  request for that URL would not have failed.
\<close>

theorem Crawl_invalid_url_counterexample:
  "Crawl_start defaultConfig demo_world None [''http://a'', ''not a url''] =
     Inl (None, Some (InvalidURL ''not a url'')) \<and>
   started (Crawl_start defaultConfig demo_world None [''http://a'', ''not a url'']) = 0 \<and>
   crawl_begin demo_world None ''not a url'' = None"
  by (simp add: Crawl_start_def started_def demo_world_def invalid_url_def crawl_begin_def)

theorem Crawl_invalid_url_witness:
  "''not a url'' \<in> set [''http://a'', ''not a url''] \<and> invalid_url demo_world ''not a url'' \<and>
   Crawl defaultConfig demo_world None [''http://a'', ''not a url''] [] =
     Some (None, Some (InvalidURL ''not a url''))"
proof -
  have m: "''not a url'' \<in> set [''http://a'', ''not a url'']" by simp
  have i: "invalid_url demo_world ''not a url''" by (simp add: invalid_url_def demo_world_def)
  have f: "find (invalid_url demo_world) [''http://a'', ''not a url''] = Some ''not a url''"
    by (simp add: invalid_url_def demo_world_def)
  show ?thesis
    using Crawl_invalid_url [OF m i, of defaultConfig "[]"] m i f by simp
qed

text \<open>
  Claim C5, as the code has it. On a list that is not empty, \<^verbatim>\<open>Crawl\<close> starts
  \<^verbatim>\<open>min(MaxConnections, len(urls))\<close> workers when the context is not done at the
  call and every URL passes the check, and none otherwise; so the number started never
  exceeds either bound. The number of workers of a call does not change while it runs.
\<close>

theorem Crawl_numWorkers:
  assumes "urls \<noteq> []"
  shows "started (Crawl_start cfg w cx urls) =
           (if cx = None \<and> find (invalid_url w) urls = None
            then min (unat (MaxConnections cfg)) (length urls) else 0) \<and>
         started (Crawl_start cfg w cx urls) \<le> unat (MaxConnections cfg) \<and>
         started (Crawl_start cfg w cx urls) \<le> length urls \<and>
         (\<forall>s evs s1. Crawl_start cfg w cx urls = Inr s \<longrightarrow> run w evs s = Some s1 \<longrightarrow>
            length (workers s1) = min (unat (MaxConnections cfg)) (length urls))"
  using assms
  by (auto simp: Crawl_start_cases started_def run_workers split: option.splits)

text \<open>
  The claim as the specification words it (the number equals the minimum for every list
  that is not empty) fails on a list holding an invalid URL and on a call whose context
  is done: no worker is started, and the minimum is 1.
\<close>

theorem Crawl_numWorkers_counterexample:
  "started (Crawl_start defaultConfig demo_world None [''not a url'']) = 0 \<and>
   started (Crawl_start defaultConfig demo_world (Some Canceled) [''http://a'']) = 0 \<and>
   min (unat (MaxConnections defaultConfig)) (length [''http://a'']) = 1"
  by (simp add: Crawl_start_def started_def defaultConfig_def demo_world_def invalid_url_def)

theorem Crawl_numWorkers_witness:
  "[''http://a'', ''http://b''] \<noteq> [] \<and>
   started (Crawl_start (defaultConfig\<lparr>MaxConnections := 1\<rparr>) demo_world None [''http://a'', ''http://b'']) = 1 \<and>
   started (Crawl_start defaultConfig demo_world None [''http://a'', ''http://b'']) = 2"
proof -
  have n: "[''http://a'', ''http://b''] \<noteq> []" by simp
  have f: "find (invalid_url demo_world) [''http://a'', ''http://b''] = None"
    by (simp add: invalid_url_def demo_world_def)
  show ?thesis
    using Crawl_numWorkers [OF n, of "defaultConfig\<lparr>MaxConnections := 1\<rparr>" demo_world None]
      Crawl_numWorkers [OF n, of defaultConfig demo_world None] f
    by (simp add: defaultConfig_def)
qed

subsection \<open>Every task succeeds\<close>

lemma crawl_begin_err: "crawl_begin w cx url = Some res \<Longrightarrow> err res \<noteq> None"
  by (auto simp: crawl_begin_def errResult_def split: option.splits)

lemma fetch_succeeds_begin: "fetch_succeeds w url \<Longrightarrow> crawl_begin w None url = None"
  using crawl_begin_err [of w None url]
  by (cases "crawl_begin w None url") (auto simp: fetch_succeeds_def crawl_def)

lemma fetch_succeeds_end: "fetch_succeeds w url \<Longrightarrow> err (crawl_end w url (Do w url)) = None"
  using fetch_succeeds_begin [of w url] by (simp add: fetch_succeeds_def crawl_def)

lemma busy_workers:
  "k < length ws \<Longrightarrow>
   sum_list (map busy (ws[k := wk])) + busy (ws ! k) = sum_list (map busy ws) + busy wk"
  by (rule sum_list_map_update)

lemma update_Exited: "Exited \<in> set (ws[k := wk]) \<Longrightarrow> wk \<noteq> Exited \<Longrightarrow> Exited \<in> set ws"
  using set_update_subset_insert [of ws k wk] by auto

lemma happy_inv_act:
  assumes "act w ev s = Some s1" and "happy_inv w n s" and "returned s = None"
    and "\<not> caller_cancels ev"
  shows "happy_inv w n s1"
  using assms(1)
proof (cases rule: act_cases)
  case (Cancel e)
  then show ?thesis using assms(4) by simp
next
  case (Done k)
  then show ?thesis using assms(2,3) by (simp add: happy_inv_def)
next
  case (Closed k)
  then show ?thesis using assms(2,3) busy_workers [of k "workers s" Exited]
    by (simp add: happy_inv_def list_all_update)
next
  case (Task k u rest)
  have u: "fetch_succeeds w u" using Task(4) assms(2) by (simp add: happy_inv_def)
  have noex: "Exited \<notin> set (workers s)" using Task(4) assms(2) by (auto simp: happy_inv_def)
  then have "Exited \<notin> set ((workers s)[k := Crawling u])"
    using update_Exited [of "workers s" k "Crawling u"] by auto
  then show ?thesis using Task assms(2,3) u busy_workers [of k "workers s" "Crawling u"]
    by (simp add: happy_inv_def list_all_update)
next
  case (Early k u res)
  have "worker_ok w (workers s ! k)"
    using Early(2) assms(2) by (simp add: happy_inv_def list_all_length)
  then have "crawl_begin w None u = None" using Early(3) by (simp add: fetch_succeeds_begin)
  moreover have "ctx s = None" using assms(2,3) by (simp add: happy_inv_def)
  ultimately show ?thesis using Early(4) by simp
next
  case (Request k u)
  have ok: "worker_ok w (workers s ! k)"
    using Request(2) assms(2) by (simp add: happy_inv_def list_all_length)
  have "Exited \<in> set ((workers s)[k := Requesting u]) \<Longrightarrow> Exited \<in> set (workers s)"
    using update_Exited [of "workers s" k "Requesting u"] by auto
  then show ?thesis using Request assms(2,3) ok busy_workers [of k "workers s" "Requesting u"]
    by (auto simp: happy_inv_def list_all_update)
next
  case (End k how u answer)
  have ok: "fetch_succeeds w u"
    using End(2,3) assms(2) by (auto simp: happy_inv_def list_all_length)
  have cx: "ctx s = None" using assms(2,3) by (simp add: happy_inv_def)
  have "answer = Do w u"
    using End(4) cx by (cases how) (simp_all add: answer_of_def)
  then have e: "err (crawl_end w u answer) = None" using ok by (simp add: fetch_succeeds_end)
  have "Exited \<in> set ((workers s)[k := Sending (crawl_end w u answer)]) \<Longrightarrow> Exited \<in> set (workers s)"
    using update_Exited [of "workers s" k "Sending (crawl_end w u answer)"] by auto
  then show ?thesis
    using End assms(2,3) e busy_workers [of k "workers s" "Sending (crawl_end w u answer)"]
    by (auto simp: happy_inv_def list_all_update)
next
  case (Recv k res)
  have "worker_ok w (workers s ! k)"
    using Recv(2) assms(2) by (simp add: happy_inv_def list_all_length)
  then have e: "err res = None" using Recv(3) by simp
  have "Exited \<in> set ((workers s)[k := Selecting]) \<Longrightarrow> Exited \<in> set (workers s)"
    using update_Exited [of "workers s" k Selecting] by auto
  then show ?thesis
    using Recv assms(2,3) e busy_workers [of k "workers s" Selecting]
    by (auto simp: happy_inv_def list_all_update)
next
  case (Handle res)
  have e: "err res = None" using Handle(2) assms(2) by (simp add: happy_inv_def)
  have x: "exitErr s = None" using assms(2) by (simp add: happy_inv_def)
  have "handle_result res s = s\<lparr>out := out s @ [res]\<rparr>"
    using e x by (simp add: handle_result_def)
  then show ?thesis using Handle assms(2,3) by (simp add: happy_inv_def)
next
  case Close
  then show ?thesis using assms(2,3) by (simp add: happy_inv_def)
next
  case Return
  then show ?thesis using assms(2,3) by (simp add: happy_inv_def)
qed

lemma happy_inv_run:
  "run w evs s = Some s1 \<Longrightarrow> happy_inv w n s \<Longrightarrow> list_all (\<lambda>ev. \<not> caller_cancels ev) evs
     \<Longrightarrow> happy_inv w n s1"
proof (induction evs arbitrary: s)
  case Nil
  then show ?case by simp
next
  case (Cons ev evs)
  then obtain s2 where a: "step w ev s = Some s2" and b: "run w evs s2 = Some s1"
    by (auto split: option.splits)
  from a have r: "returned s = None" and a': "act w ev s = Some s2"
    by (cases "returned s"; simp add: step_def)+
  have "happy_inv w n s2" using happy_inv_act [OF a' Cons.prems(2) r] Cons.prems(3) by simp
  then show ?case using Cons.IH [OF b] Cons.prems(3) by simp
qed

lemma busy_all_Exited: "list_all (\<lambda>wk. wk = Exited) ws \<Longrightarrow> sum_list (map busy ws) = 0"
  by (induction ws) auto

lemma happy_return:
  assumes "happy_inv w n s" and "final_inv s" and "returned s = Some rv" and "workers s \<noteq> []"
  shows "rv = (Some (out s), None) \<and> length (out s) = n"
proof -
  from assms(2,3) have ex: "list_all (\<lambda>wk. wk = Exited) (workers s)"
    and h: "handling s = None" and rv: "rv = return_value s"
    by (auto simp: final_inv_def)
  have "Exited \<in> set (workers s)" using ex assms(4) by (cases "workers s") auto
  then have "tasks s = []" using assms(1) by (simp add: happy_inv_def)
  then have "length (out s) = n"
    using assms(1) h busy_all_Exited [OF ex] by (simp add: happy_inv_def)
  moreover have "exitErr s = None" using assms(1) by (simp add: happy_inv_def)
  ultimately show ?thesis using rv by (simp add: return_value_def)
qed

lemma run_append:
  "run w (evs @ evs1) s = (case run w evs s of None \<Rightarrow> None | Some s1 \<Rightarrow> run w evs1 s1)"
  by (induction evs arbitrary: s) (auto split: option.splits)

lemma quiet_not_cancel: "quiet ev \<Longrightarrow> \<not> caller_cancels ev"
  by (cases ev) auto

text \<open>
  Claim C6, as the code has it. Take a list every URL of which passes the check and is
  fetched with success, a configuration that allows at least one connection, a context
  that is not done at the call, and a schedule in which the caller does not cancel. When
  the call returns, it returns a result list as long as the list of URLs (nil, of length
  0, for the empty list) together with a nil error. On the empty list the call returns at
  once; on any other the workers start, and from every state the schedule reaches, steps
  without cancellation lead to the return.
\<close>

theorem Crawl_all_succeed:
  assumes "MaxConnections cfg \<noteq> 0"
    and "\<forall>url \<in> set urls. \<not> invalid_url w url \<and> fetch_succeeds w url"
    and "list_all (\<lambda>ev. \<not> caller_cancels ev) evs"
  shows "(\<forall>rv. Crawl cfg w None urls evs = Some rv \<longrightarrow>
            len (fst rv) = length urls \<and> snd rv = None) \<and>
         (urls = [] \<longrightarrow> Crawl cfg w None urls evs = Some (None, None)) \<and>
         (urls \<noteq> [] \<longrightarrow>
            (\<exists>s0. Crawl_start cfg w None urls = Inr s0 \<and>
              (\<forall>s. run w evs s0 = Some s \<longrightarrow>
                 (\<exists>evs1 rv. list_all quiet evs1 \<and>
                    Crawl cfg w None urls (evs @ evs1) = Some rv))))"
proof (cases "urls = []")
  case True
  then show ?thesis by (simp add: Crawl_def Crawl_start_cases len_def)
next
  case False
  define s0 where "s0 = \<lparr>ctx_parent = None, ctx = None, tasks = urls,
      workers = replicate (min (unat (MaxConnections cfg)) (length urls)) Selecting,
      results_closed = False, handling = None, exitErr = None, out = [],
      returned = None, produced = [], observed = []\<rparr>"
  have nf: "find (invalid_url w) urls = None" using assms(2) by (simp add: find_None_iff)
  have start: "Crawl_start cfg w None urls = Inr s0"
    using False nf by (simp add: Crawl_start_cases s0_def)
  have "unat (MaxConnections cfg) \<noteq> 0" using assms(1) by (simp add: unat_eq_0)
  then have pos: "0 < min (unat (MaxConnections cfg)) (length urls)" using False by simp
  have h0: "happy_inv w (length urls) s0"
    using assms(2) by (simp add: s0_def happy_inv_def list_all_iff)
  have f0: "run_inv s0" using run_inv_start [OF start] .
  have ret: "len (fst rv) = length urls \<and> snd rv = None"
    if r: "run w evs s0 = Some s" and rv: "returned s = Some rv" for s rv
  proof -
    have "happy_inv w (length urls) s" using happy_inv_run [OF r h0 assms(3)] .
    moreover have "final_inv s" using run_inv_run [OF r f0] by (simp add: run_inv_def)
    moreover have "workers s \<noteq> []"
    proof -
      have "length (workers s) = min (unat (MaxConnections cfg)) (length urls)"
        using run_workers [OF r] by (simp add: s0_def)
      then have "0 < length (workers s)" using pos by simp
      then show ?thesis by blast
    qed
    ultimately have "rv = (Some (out s), None) \<and> length (out s) = length urls"
      using happy_return [of w "length urls" s rv] rv by blast
    then show ?thesis by (simp add: len_def)
  qed
  have 1: "\<forall>rv. Crawl cfg w None urls evs = Some rv \<longrightarrow>
              len (fst rv) = length urls \<and> snd rv = None"
    using ret start by (auto simp: Crawl_def split: option.splits)
  have 2: "\<exists>evs1 rv. list_all quiet evs1 \<and> Crawl cfg w None urls (evs @ evs1) = Some rv"
    if r: "run w evs s0 = Some s" for s
  proof -
    from can_return [of w s] obtain evs1 s1 where
      q: "list_all quiet evs1" "run w evs1 s = Some s1" "returned s1 \<noteq> None" by blast
    then have "Crawl cfg w None urls (evs @ evs1) = returned s1"
      using start r by (simp add: Crawl_def run_append)
    then show ?thesis using q by auto
  qed
  show ?thesis using False start 1 2 by blast
qed

text \<open>
  The claim as the specification words it fails on the two URLs \<^verbatim>\<open>http://a\<close> and
  \<^verbatim>\<open>http://b\<close>, both fetched with success: under a context that is done at the call
  the call returns nil and the context's error; with \<^verbatim>\<open>MaxConnections\<close> 0 no worker
  starts and the call returns an empty list; and when the caller cancels after the first
  result, the workers leave at their \<^verbatim>\<open>select\<close> and the call returns that one
  result with a nil error.
\<close>

theorem Crawl_all_succeed_counterexample:
  "fetch_succeeds demo_world ''http://a'' \<and> fetch_succeeds demo_world ''http://b'' \<and>
   Crawl defaultConfig demo_world (Some Canceled) ok_urls [] = Some (None, Some Canceled) \<and>
   Crawl (defaultConfig\<lparr>MaxConnections := 0\<rparr>) demo_world None ok_urls [CloseResults, Return] =
     Some (Some [], None) \<and>
   Crawl defaultConfig demo_world None ok_urls cancel_schedule =
     Some (Some [okResult ''http://a''], None)"
  by code_simp

lemma ok_run:
  "Crawl defaultConfig demo_world None ok_urls ok_schedule =
     Some (Some [okResult ''http://b'', okResult ''http://a''], None)"
  by code_simp

theorem Crawl_all_succeed_witness:
  "MaxConnections defaultConfig \<noteq> 0 \<and>
   list_all (\<lambda>ev. \<not> caller_cancels ev) ok_schedule \<and>
   Crawl defaultConfig demo_world None ok_urls ok_schedule =
     Some (Some [okResult ''http://b'', okResult ''http://a''], None) \<and>
   len (Some [okResult ''http://b'', okResult ''http://a'']) = length ok_urls"
proof -
  have 2: "MaxConnections defaultConfig \<noteq> 0" by (simp add: defaultConfig_def)
  have 3: "\<forall>url \<in> set ok_urls. \<not> invalid_url demo_world url \<and> fetch_succeeds demo_world url"
    by code_simp
  have 4: "list_all (\<lambda>ev. \<not> caller_cancels ev) ok_schedule" by code_simp
  from Crawl_all_succeed [OF 2 3 4] ok_run
  have "len (fst (Some [okResult ''http://b'', okResult ''http://a''], None :: error option)) = length ok_urls"
    by blast
  then show ?thesis using 2 4 ok_run by simp
qed

subsection \<open>The first error wins\<close>

lemma crawl_begin_url: "crawl_begin w cx url = Some res \<Longrightarrow> SourceURL res = url"
  by (auto simp: crawl_begin_def errResult_def split: option.splits)

lemma crawl_end_url: "SourceURL (crawl_end w url answer) = url"
  by (simp add: crawl_end_def errResult_def split: sum.splits option.splits)

lemma url_inv_act:
  assumes "act w ev s = Some s1" and "url_inv urls s"
  shows "url_inv urls s1"
  using assms(1)
proof (cases rule: act_cases)
  case (Cancel e)
  then show ?thesis using assms(2) by (simp add: url_inv_def)
next
  case (Done k)
  then show ?thesis using assms(2) by (simp add: url_inv_def list_all_update)
next
  case (Closed k)
  then show ?thesis using assms(2) by (simp add: url_inv_def list_all_update)
next
  case (Task k u rest)
  then show ?thesis using assms(2) by (simp add: url_inv_def list_all_update)
next
  case (Early k u res)
  have "worker_in urls (workers s ! k)"
    using Early(2) assms(2) by (simp add: url_inv_def list_all_length)
  then have "SourceURL res \<in> set urls" using Early(3,4) crawl_begin_url [of w "ctx s" u res] by simp
  then show ?thesis using Early assms(2) by (simp add: url_inv_def list_all_update)
next
  case (Request k u)
  have "worker_in urls (workers s ! k)"
    using Request(2) assms(2) by (simp add: url_inv_def list_all_length)
  then show ?thesis using Request assms(2) by (simp add: url_inv_def list_all_update)
next
  case (End k how u answer)
  have "worker_in urls (workers s ! k)"
    using End(2) assms(2) by (simp add: url_inv_def list_all_length)
  then have "SourceURL (crawl_end w u answer) \<in> set urls" using End(3) by (simp add: crawl_end_url)
  then show ?thesis using End assms(2) by (simp add: url_inv_def list_all_update)
next
  case (Recv k res)
  have "worker_in urls (workers s ! k)"
    using Recv(2) assms(2) by (simp add: url_inv_def list_all_length)
  then show ?thesis using Recv assms(2) by (simp add: url_inv_def list_all_update)
next
  case (Handle res)
  then show ?thesis using assms(2) by (simp add: url_inv_def)
next
  case Close
  then show ?thesis using assms(2) by (simp add: url_inv_def)
next
  case Return
  then show ?thesis using assms(2) by (simp add: url_inv_def)
qed

lemma url_inv_run: "run w evs s = Some s1 \<Longrightarrow> url_inv urls s \<Longrightarrow> url_inv urls s1"
proof (induction evs arbitrary: s)
  case Nil
  then show ?case by simp
next
  case (Cons ev evs)
  then obtain s2 where a: "step w ev s = Some s2" and b: "run w evs s2 = Some s1"
    by (auto split: option.splits)
  from a have a': "act w ev s = Some s2" by (cases "returned s"; simp add: step_def)
  show ?case using Cons.IH [OF b url_inv_act [OF a' Cons.prems(2)]] .
qed

lemma list_ex_update:
  assumes "list_ex P xs" and "P (xs ! k) \<Longrightarrow> P y"
  shows "list_ex P (xs[k := y])"
proof -
  from assms(1) obtain j where j: "j < length xs" "P (xs ! j)"
    by (auto simp: list_ex_iff in_set_conv_nth)
  show ?thesis
  proof (cases "j = k")
    case True
    then have "P y" using j assms(2) by simp
    moreover have "y \<in> set (xs[k := y])" using j True by (simp add: set_update_memI)
    ultimately show ?thesis by (auto simp: list_ex_iff)
  next
    case False
    then have "xs[k := y] ! j = xs ! j" by simp
    moreover have "j < length (xs[k := y])" using j by simp
    ultimately have "xs ! j \<in> set (xs[k := y])" by (metis nth_mem)
    then show ?thesis using j(2) by (auto simp: list_ex_iff)
  qed
qed


lemma produced_act:
  assumes "act w ev s = Some s1" and "res \<in> set (produced s)"
  shows "res \<in> set (produced s1)"
  using assms(1) by (cases rule: act_cases) (use assms(2) in simp_all)

lemma unfailed_act:
  assumes "act w ev s = Some s1" and "unfailed_inv w s" and "returned s = None"
    and "\<not> caller_cancels ev"
  shows "unfailed_inv w s1 \<or> (\<exists>res \<in> set (produced s1). err res \<noteq> None)"
  using assms(1)
proof (cases rule: act_cases)
  case (Cancel e)
  then show ?thesis using assms(4) by simp
next
  case (Done k)
  then show ?thesis using assms(2,3) by (simp add: unfailed_inv_def)
next
  case (Closed k)
  have "list_ex (holds_failing w) (workers s)"
    using Closed(4) assms(2) by (simp add: unfailed_inv_def)
  then have "list_ex (holds_failing w) ((workers s)[k := Exited])"
    using Closed(3) by (intro list_ex_update) simp_all
  then show ?thesis using Closed assms(2,3) by (simp add: unfailed_inv_def list_all_update)
next
  case (Task k u rest)
  have noex: "Exited \<notin> set (workers s)" using Task(4) assms(2) by (auto simp: unfailed_inv_def)
  then have ex: "Exited \<notin> set ((workers s)[k := Crawling u])"
    using update_Exited [of "workers s" k "Crawling u"] by auto
  have p: "(\<exists>url \<in> set rest. \<not> fetch_succeeds w url) \<or>
      list_ex (holds_failing w) ((workers s)[k := Crawling u])"
  proof (cases "list_ex (holds_failing w) (workers s)")
    case True
    then have "list_ex (holds_failing w) ((workers s)[k := Crawling u])"
      using Task(3) by (intro list_ex_update) simp_all
    then show ?thesis by simp
  next
    case False
    then have "\<exists>url \<in> set (u # rest). \<not> fetch_succeeds w url"
      using Task(4) assms(2) by (auto simp: unfailed_inv_def)
    then show ?thesis
    proof (cases "fetch_succeeds w u")
      case True
      then show ?thesis using \<open>\<exists>url \<in> set (u # rest). \<not> fetch_succeeds w url\<close> by auto
    next
      case False
      have "Crawling u \<in> set ((workers s)[k := Crawling u])"
        using Task(2) by (simp add: set_update_memI)
      moreover have "holds_failing w (Crawling u)" using False by simp
      ultimately have "list_ex (holds_failing w) ((workers s)[k := Crawling u])"
        unfolding list_ex_iff by (rule rev_bexI)
      then show ?thesis by simp
    qed
  qed
  show ?thesis using Task assms(2,3) p ex by (simp add: unfailed_inv_def list_all_update)
next
  case (Early k u res)
  have "err res \<noteq> None" using Early(4) by (rule crawl_begin_err)
  then show ?thesis using Early by auto
next
  case (Request k u)
  have cx: "ctx s = None" using assms(2,3) by (simp add: unfailed_inv_def)
  have c: "crawl w None u = crawl_end w u (Do w u)"
    using Request(4) cx by (simp add: crawl_def)
  have p: "(\<exists>url \<in> set (tasks s). \<not> fetch_succeeds w url) \<or>
      list_ex (holds_failing w) ((workers s)[k := Requesting u])"
  proof (cases "list_ex (holds_failing w) (workers s)")
    case True
    then have "list_ex (holds_failing w) ((workers s)[k := Requesting u])"
      using Request(3) c by (intro list_ex_update) (simp_all add: fetch_succeeds_def)
    then show ?thesis by simp
  next
    case False
    then show ?thesis using assms(2) by (auto simp: unfailed_inv_def)
  qed
  have "Exited \<in> set ((workers s)[k := Requesting u]) \<Longrightarrow> Exited \<in> set (workers s)"
    using update_Exited [of "workers s" k "Requesting u"] by auto
  then show ?thesis using Request assms(2,3) p by (auto simp: unfailed_inv_def list_all_update)
next
  case (End k how u answer)
  have cx: "ctx s = None" using assms(2,3) by (simp add: unfailed_inv_def)
  have a: "answer = Do w u" using End(4) cx by (cases how) (simp_all add: answer_of_def)
  show ?thesis
  proof (cases "err (crawl_end w u answer) = None")
    case False
    then show ?thesis using End by auto
  next
    case True
    have p: "(\<exists>url \<in> set (tasks s). \<not> fetch_succeeds w url) \<or>
        list_ex (holds_failing w) ((workers s)[k := Sending (crawl_end w u answer)])"
    proof (cases "list_ex (holds_failing w) (workers s)")
      case True
      then have "list_ex (holds_failing w) ((workers s)[k := Sending (crawl_end w u answer)])"
        using End(3) a \<open>err (crawl_end w u answer) = None\<close> by (intro list_ex_update) simp_all
      then show ?thesis by simp
    next
      case False
      then show ?thesis using assms(2) by (auto simp: unfailed_inv_def)
    qed
    have "Exited \<in> set ((workers s)[k := Sending (crawl_end w u answer)]) \<Longrightarrow> Exited \<in> set (workers s)"
      using update_Exited [of "workers s" k "Sending (crawl_end w u answer)"] by auto
    then have "unfailed_inv w s1"
      using End assms(2,3) p True by (auto simp: unfailed_inv_def list_all_update)
    then show ?thesis by simp
  qed
next
  case (Recv k res)
  have "worker_clean (workers s ! k)"
    using Recv(2) assms(2) by (simp add: unfailed_inv_def list_all_length)
  then have e: "err res = None" using Recv(3) by simp
  have p: "(\<exists>url \<in> set (tasks s). \<not> fetch_succeeds w url) \<or>
      list_ex (holds_failing w) ((workers s)[k := Selecting])"
  proof (cases "list_ex (holds_failing w) (workers s)")
    case True
    then have "list_ex (holds_failing w) ((workers s)[k := Selecting])"
      using Recv(3) by (intro list_ex_update) simp_all
    then show ?thesis by simp
  next
    case False
    then show ?thesis using assms(2) by (auto simp: unfailed_inv_def)
  qed
  have "Exited \<in> set ((workers s)[k := Selecting]) \<Longrightarrow> Exited \<in> set (workers s)"
    using update_Exited [of "workers s" k Selecting] by auto
  then show ?thesis using Recv assms(2,3) e p by (auto simp: unfailed_inv_def list_all_update)
next
  case (Handle res)
  have e: "err res = None" using Handle(2) assms(2) by (simp add: unfailed_inv_def)
  have x: "exitErr s = None" using assms(2) by (simp add: unfailed_inv_def)
  have "handle_result res s = s\<lparr>out := out s @ [res]\<rparr>"
    using e x by (simp add: handle_result_def)
  then show ?thesis using Handle assms(2,3) by (simp add: unfailed_inv_def)
next
  case Close
  then show ?thesis using assms(2,3) by (simp add: unfailed_inv_def)
next
  case Return
  then show ?thesis using assms(2,3) by (simp add: unfailed_inv_def)
qed

lemma doomed_inv_run:
  "run w evs s = Some s1 \<Longrightarrow> doomed_inv w s \<Longrightarrow> list_all (\<lambda>ev. \<not> caller_cancels ev) evs
     \<Longrightarrow> doomed_inv w s1"
proof (induction evs arbitrary: s)
  case Nil
  then show ?case by simp
next
  case (Cons ev evs)
  then obtain s2 where a: "step w ev s = Some s2" and b: "run w evs s2 = Some s1"
    by (auto split: option.splits)
  from a have r: "returned s = None" and a': "act w ev s = Some s2"
    by (cases "returned s"; simp add: step_def)+
  have "doomed_inv w s2"
  proof (cases "\<exists>res \<in> set (produced s). err res \<noteq> None")
    case True
    then show ?thesis using produced_act [OF a'] by (auto simp: doomed_inv_def)
  next
    case False
    then have "unfailed_inv w s" using Cons.prems(2) by (simp add: doomed_inv_def)
    then show ?thesis using unfailed_act [OF a' _ r] Cons.prems(3) by (auto simp: doomed_inv_def)
  qed
  then show ?case using Cons.IH [OF b] Cons.prems(3) by simp
qed

lemma doomed_return:
  assumes "doomed_inv w s" and "final_inv s" and "returned s = Some rv" and "workers s \<noteq> []"
  shows "\<exists>res \<in> set (produced s). err res \<noteq> None"
proof (rule ccontr)
  assume n: "\<not> (\<exists>res \<in> set (produced s). err res \<noteq> None)"
  then have u: "unfailed_inv w s" using assms(1) by (simp add: doomed_inv_def)
  from assms(2,3) have ex: "list_all (\<lambda>wk. wk = Exited) (workers s)"
    by (auto simp: final_inv_def)
  have "Exited \<in> set (workers s)" using ex assms(4) by (cases "workers s") auto
  then have "tasks s = []" using u by (simp add: unfailed_inv_def)
  then have "list_ex (holds_failing w) (workers s)" using u by (simp add: unfailed_inv_def)
  then obtain wk where wk: "wk \<in> set (workers s)" "holds_failing w wk"
    by (auto simp: list_ex_iff)
  then have "wk = Exited" using ex by (auto simp: list_all_iff)
  then show False using wk(2) by simp
qed

lemma demo_start_eq: "Crawl_start defaultConfig demo_world None demo_urls = Inr demo_start"
  by code_simp

lemma demo_run_eq: "run demo_world demo_schedule demo_start = Some demo_final"
  by (simp add: demo_schedule_def demo_start_def demo_final_def demo_world_def step_def
      worker_at_def set_worker_def send_def crawl_begin_def crawl_end_def answer_of_def
      handle_result_def cancel_def return_value_def errResult_def)

text \<open>
  Claim C1, as the code has it. Take a list that is not empty, every URL of which passes
  the check, and a call under a context that is not done: the workers start. Under every
  schedule, when the call has returned and a task has failed (\<^verbatim>\<open>crawl\<close> returned a
  result with an error to a worker), the call returns nil results together with the
  error of the first failed result the loop dealt with, wrapped with the URL of that
  result, which is a URL of the list. A task does fail whenever the list holds a URL
  whose fetch fails, the configuration allows at least one connection and the caller
  does not cancel during the call. Every call returns: from every state a schedule
  reaches, steps without cancellation lead to the return, and no schedule is longer than
  the bound of the start state.
\<close>

theorem Crawl_first_error_wins:
  assumes "urls \<noteq> []" and "\<forall>url \<in> set urls. \<not> invalid_url w url"
  shows "\<exists>s0. Crawl_start cfg w None urls = Inr s0 \<and>
           (\<forall>s. run w evs s0 = Some s \<longrightarrow>
              (\<forall>rv. returned s = Some rv \<longrightarrow>
                 ((\<exists>res \<in> set (produced s). err res \<noteq> None) \<or>
                  (MaxConnections cfg \<noteq> 0 \<and> (\<exists>url \<in> set urls. \<not> fetch_succeeds w url) \<and>
                   list_all (\<lambda>ev. \<not> caller_cancels ev) evs)) \<longrightarrow>
                 (\<exists>r e. find (\<lambda>r. err r \<noteq> None) (observed s) = Some r \<and> err r = Some e \<and>
                        SourceURL r \<in> set urls \<and>
                        rv = (None, Some (FailedToCrawl (SourceURL r) e)) \<and>
                        Crawl cfg w None urls evs = Some rv)) \<and>
              (\<exists>evs1 rv. list_all quiet evs1 \<and> Crawl cfg w None urls (evs @ evs1) = Some rv) \<and>
              length evs \<le> todo s0)"
proof -
  define s0 where "s0 = \<lparr>ctx_parent = None, ctx = None, tasks = urls,
      workers = replicate (min (unat (MaxConnections cfg)) (length urls)) Selecting,
      results_closed = False, handling = None, exitErr = None, out = [],
      returned = None, produced = [], observed = []\<rparr>"
  have nf: "find (invalid_url w) urls = None" using assms(2) by (simp add: find_None_iff)
  have start: "Crawl_start cfg w None urls = Inr s0"
    using assms(1) nf by (simp add: Crawl_start_cases s0_def)
  have r0: "run_inv s0" using run_inv_start [OF start] .
  have u0: "url_inv urls s0" by (simp add: s0_def url_inv_def list_all_iff)
  have main: "(\<forall>rv. returned s = Some rv \<longrightarrow>
                 ((\<exists>res \<in> set (produced s). err res \<noteq> None) \<or>
                  (MaxConnections cfg \<noteq> 0 \<and> (\<exists>url \<in> set urls. \<not> fetch_succeeds w url) \<and>
                   list_all (\<lambda>ev. \<not> caller_cancels ev) evs)) \<longrightarrow>
                 (\<exists>r e. find (\<lambda>r. err r \<noteq> None) (observed s) = Some r \<and> err r = Some e \<and>
                        SourceURL r \<in> set urls \<and>
                        rv = (None, Some (FailedToCrawl (SourceURL r) e)) \<and>
                        Crawl cfg w None urls evs = Some rv)) \<and>
              (\<exists>evs1 rv. list_all quiet evs1 \<and> Crawl cfg w None urls (evs @ evs1) = Some rv) \<and>
              length evs \<le> todo s0"
    if r: "run w evs s0 = Some s" for s
  proof -
    have inv: "run_inv s" using run_inv_run [OF r r0] .
    have ui: "url_inv urls s" using url_inv_run [OF r u0] .
    have c: "Crawl cfg w None urls evs = returned s" using start r by (simp add: Crawl_def)
    have failed: "\<exists>res \<in> set (produced s). err res \<noteq> None"
      if rv: "returned s = Some rv" and m: "MaxConnections cfg \<noteq> 0"
        and f: "\<exists>url \<in> set urls. \<not> fetch_succeeds w url"
        and q: "list_all (\<lambda>ev. \<not> caller_cancels ev) evs" for rv
    proof -
      have "unfailed_inv w s0" using f by (simp add: s0_def unfailed_inv_def list_all_iff)
      then have "doomed_inv w s0" by (simp add: doomed_inv_def)
      then have d: "doomed_inv w s" using doomed_inv_run [OF r _ q] by simp
      have "unat (MaxConnections cfg) \<noteq> 0" using m by (simp add: unat_eq_0)
      then have pos: "0 < min (unat (MaxConnections cfg)) (length urls)" using assms(1) by simp
      have "length (workers s) = min (unat (MaxConnections cfg)) (length urls)"
        using run_workers [OF r] by (simp add: s0_def)
      then have "0 < length (workers s)" using pos by simp
      then have "workers s \<noteq> []" by blast
      moreover have "final_inv s" using inv by (simp add: run_inv_def)
      ultimately show ?thesis using doomed_return [OF d _ rv] by blast
    qed
    have 1: "\<exists>r e. find (\<lambda>r. err r \<noteq> None) (observed s) = Some r \<and> err r = Some e \<and>
                        SourceURL r \<in> set urls \<and>
                        rv = (None, Some (FailedToCrawl (SourceURL r) e)) \<and>
                        Crawl cfg w None urls evs = Some rv"
      if rv: "returned s = Some rv"
        and h: "(\<exists>res \<in> set (produced s). err res \<noteq> None) \<or>
                  (MaxConnections cfg \<noteq> 0 \<and> (\<exists>url \<in> set urls. \<not> fetch_succeeds w url) \<and>
                   list_all (\<lambda>ev. \<not> caller_cancels ev) evs)" for rv
    proof -
      from h failed [OF rv] obtain res where res: "res \<in> set (produced s)" "err res \<noteq> None"
        by blast
      from returned_first_error [OF inv rv res] obtain r e where
        re: "find (\<lambda>r. err r \<noteq> None) (observed s) = Some r" "err r = Some e"
            "rv = (None, Some (FailedToCrawl (SourceURL r) e))" by blast
      from re(1) have "r \<in> set (observed s)" by (auto simp: find_Some_iff)
      then have "SourceURL r \<in> set urls" using ui by (simp add: url_inv_def)
      then show ?thesis using re c rv by auto
    qed
    have 2: "\<exists>evs1 rv. list_all quiet evs1 \<and> Crawl cfg w None urls (evs @ evs1) = Some rv"
    proof -
      from can_return [of w s] obtain evs1 s1 where
        q: "list_all quiet evs1" "run w evs1 s = Some s1" "returned s1 \<noteq> None" by blast
      then have "Crawl cfg w None urls (evs @ evs1) = returned s1"
        using start r by (simp add: Crawl_def run_append)
      then show ?thesis using q by auto
    qed
    have 3: "length evs \<le> todo s0" using run_bounded [OF r] by simp
    show ?thesis using 1 2 3 by blast
  qed
  show ?thesis using start main by blast
qed

text \<open>
  The claim as the specification words it (for every list on which a fetch fails) fails
  on the list \<^verbatim>\<open>http://a\<close>, \<^verbatim>\<open>http://bad\<close>, the second of which answers 500: under a
  context that is done at the call the call returns nil and the context's error, which
  carries no URL; when the caller cancels after the first result, the workers leave at
  their \<^verbatim>\<open>select\<close> before the failing URL is fetched and the call returns that one
  result with a nil error; and with \<^verbatim>\<open>MaxConnections\<close> 0 no worker starts and the call
  returns an empty list with a nil error.
\<close>

theorem Crawl_first_error_wins_counterexample:
  "\<not> fetch_succeeds demo_world ''http://bad'' \<and>
   Crawl defaultConfig demo_world (Some Canceled) demo_urls [] = Some (None, Some Canceled) \<and>
   Crawl defaultConfig demo_world None demo_urls cancel_schedule =
     Some (Some [okResult ''http://a''], None) \<and>
   Crawl (defaultConfig\<lparr>MaxConnections := 0\<rparr>) demo_world None demo_urls [CloseResults, Return] =
     Some (Some [], None)"
  by code_simp

theorem Crawl_first_error_wins_witness:
  "demo_urls \<noteq> [] \<and> MaxConnections defaultConfig \<noteq> 0 \<and>
   \<not> fetch_succeeds demo_world ''http://bad'' \<and>
   list_all (\<lambda>ev. \<not> caller_cancels ev) demo_schedule \<and>
   Crawl defaultConfig demo_world None demo_urls demo_schedule =
     Some (None, Some (FailedToCrawl ''http://bad'' (UnexpectedStatus 500)))"
proof -
  have 1: "demo_urls \<noteq> []" by (simp add: demo_urls_def)
  have 2: "\<forall>url \<in> set demo_urls. \<not> invalid_url demo_world url" by code_simp
  have 3: "MaxConnections defaultConfig \<noteq> 0" by (simp add: defaultConfig_def)
  have 4: "\<not> fetch_succeeds demo_world ''http://bad''" by code_simp
  have 5: "list_all (\<lambda>ev. \<not> caller_cancels ev) demo_schedule" by code_simp
  have 6: "\<exists>url \<in> set demo_urls. \<not> fetch_succeeds demo_world url"
    using 4 by (simp add: demo_urls_def)
  have r: "returned demo_final = Some (None, Some (FailedToCrawl ''http://bad'' (UnexpectedStatus 500)))"
    by (simp add: demo_final_def)
  from Crawl_first_error_wins [OF 1 2, of defaultConfig demo_schedule] demo_start_eq
  have "\<forall>s. run demo_world demo_schedule demo_start = Some s \<longrightarrow>
          (\<forall>rv. returned s = Some rv \<longrightarrow>
             ((\<exists>res \<in> set (produced s). err res \<noteq> None) \<or>
              (MaxConnections defaultConfig \<noteq> 0 \<and>
               (\<exists>url \<in> set demo_urls. \<not> fetch_succeeds demo_world url) \<and>
               list_all (\<lambda>ev. \<not> caller_cancels ev) demo_schedule)) \<longrightarrow>
             (\<exists>r e. find (\<lambda>r. err r \<noteq> None) (observed s) = Some r \<and> err r = Some e \<and>
                    SourceURL r \<in> set demo_urls \<and>
                    rv = (None, Some (FailedToCrawl (SourceURL r) e)) \<and>
                    Crawl defaultConfig demo_world None demo_urls demo_schedule = Some rv))"
    by auto
  with demo_run_eq r 3 5 6
  have "Crawl defaultConfig demo_world None demo_urls demo_schedule =
     Some (None, Some (FailedToCrawl ''http://bad'' (UnexpectedStatus 500)))"
    by blast
  then show ?thesis using 1 3 4 5 by simp
qed

end
